theory Spec2Isabelle
  imports Main "HOL-Library.Word" "HOL-Library.Sublist" "HOL-Library.AList" "HOL-Library.Multiset"
begin

section \<open>Data model\<close>

text \<open>
  \<^verbatim>\<open>value_t = int32_t\<close> is a 32-bit word read as two's complement (\<open>sint\<close>);
  \<^verbatim>\<open>count_t\<close>, \<^verbatim>\<open>id_t\<close> and \<^verbatim>\<open>index_t\<close> are \<^verbatim>\<open>size_t\<close>. Counts are 64-bit words,
  compared unsigned, whose sums wrap around; ids and indices are natural numbers (they
  only count loop iterations and vector positions).
  \<^verbatim>\<open>encoded_t = std::vector<bool>\<close> is a list of booleans.
\<close>

type_synonym value_t = "32 word"
type_synonym count_t = "64 word"
type_synonym encoded_t = "bool list"

text \<open>
  The exceptions of the program, and the two places where it leaves defined behaviour:
  \<^item> \<open>InsufficientAlphabet\<close>: \<^verbatim>\<open>std::invalid_argument("at least 2 symbols are required")\<close>;
  \<^item> \<open>Unsolvable\<close>: \<^verbatim>\<open>std::runtime_error("cannot solve encoding")\<close>;
  \<^item> \<open>OutOfRange\<close>: \<^verbatim>\<open>std::out_of_range\<close> of \<^verbatim>\<open>.at()\<close> on a missing key;
  \<^item> \<open>BadOptionalAccess\<close>: \<^verbatim>\<open>.value()\<close> of an empty optional;
  \<^item> \<open>LengthError\<close>: a vector constructed with a size beyond \<^verbatim>\<open>max_size()\<close>;
  \<^item> \<open>Undefined\<close>: dereferencing \<^verbatim>\<open>end()\<close> or indexing a vector out of range.
\<close>

datatype error =
  InsufficientAlphabet | Unsolvable | OutOfRange | BadOptionalAccess | LengthError | Undefined

text \<open>\<^verbatim>\<open>struct queue_entry { id_t id; Value value; count_t count; }\<close>\<close>

record 'v queue_entry =
  entry_id :: nat
  entry_value :: 'v
  entry_count :: count_t

text \<open>
  \<^verbatim>\<open>struct tree { queue_entry entry; shared_ptr<tree> left; shared_ptr<tree> right; }\<close>:
  a null pointer is \<open>None\<close>.
\<close>

datatype 'v tree =
  Tree (entry: "'v queue_entry") (left: "'v tree option") (right: "'v tree option")

section \<open>The min-priority queue\<close>

text \<open>
  \<^verbatim>\<open>std::priority_queue<queue_entry, std::vector<queue_entry>, std::greater<queue_entry>>\<close>
  compares entries by \<open>count\<close> only. Which of several entries of the same least count is on
  top depends on the heap layout, which the program does not control. The model keeps the
  entries in a list and takes the choice among the entries of least count from a parameter
  \<open>tb\<close>: every run of the program is the run of the model for some \<open>tb\<close>, and the theorems
  below hold for all of them.
\<close>

type_synonym 'v tiebreak = "'v queue_entry list \<Rightarrow> nat"

primrec least_count :: "'v queue_entry list \<Rightarrow> count_t" where
  "least_count [] = 0"
| "least_count (e # es) = (if es = [] then entry_count e else min (entry_count e) (least_count es))"

definition Q_top :: "'v tiebreak \<Rightarrow> 'v queue_entry list \<Rightarrow> 'v queue_entry" where
  "Q_top tb Q =
     (let cands = filter (\<lambda>e. entry_count e = least_count Q) Q
      in cands ! (tb Q mod length cands))"

definition Q_pop :: "'v tiebreak \<Rightarrow> 'v queue_entry list \<Rightarrow> 'v queue_entry list" where
  "Q_pop tb Q = remove1 (Q_top tb Q) Q"

definition Q_emplace :: "'v queue_entry \<Rightarrow> 'v queue_entry list \<Rightarrow> 'v queue_entry list" where
  "Q_emplace e Q = Q @ [e]"

text \<open>The tie-break used to run the model on concrete inputs: the first entry of least count.\<close>

definition first_least :: "'v tiebreak" where
  "first_least Q = 0"

section \<open>build_encoding: the tree\<close>

text \<open>
  \<^verbatim>\<open>insert_or_retrieve_child\<close>: an entry whose id is in the side table \<open>interiors\<close> is an
  interior node built earlier; it becomes the child and leaves the table. Any other entry
  becomes a new leaf, with the entry's value and count and the default id 0.
\<close>

definition insert_or_retrieve_child ::
  "(nat \<rightharpoonup> 'v tree) \<Rightarrow> 'v queue_entry \<Rightarrow> 'v tree \<times> (nat \<rightharpoonup> 'v tree)" where
  "insert_or_retrieve_child interiors e =
     (case interiors (entry_id e) of
        Some t \<Rightarrow> (t, interiors(entry_id e := None))
      | None \<Rightarrow>
          (Tree \<lparr>entry_id = 0, entry_value = entry_value e, entry_count = entry_count e\<rparr> None None,
           interiors))"

text \<open>
  The state of the merge loop: the queue, the side table and \<open>max_id\<close>. One iteration
  follows the source's order. The new node is first stored under \<open>max_id\<close> with no
  children; \<open>new_node\<close> and the table slot are the same object, so the children and the count
  set through \<open>new_node\<close> are in the slot too: the model writes the finished node back to
  the slot. The value of an interior entry is the member default \<^verbatim>\<open>Value value = 0\<close>,
  the parameter \<open>v0\<close>.
\<close>

type_synonym 'v build_state = "'v queue_entry list \<times> (nat \<rightharpoonup> 'v tree) \<times> nat"

definition merge_step :: "'v tiebreak \<Rightarrow> 'v \<Rightarrow> 'v build_state \<Rightarrow> 'v build_state" where
  "merge_step tb v0 s =
     (case s of (Q, interiors, max_id) \<Rightarrow>
        let fresh = \<lparr>entry_id = max_id, entry_value = v0, entry_count = 0\<rparr>;
            interiors1 = interiors(max_id \<mapsto> Tree fresh None None);
            (l, interiors2) = insert_or_retrieve_child interiors1 (Q_top tb Q);
            Q1 = Q_pop tb Q;
            (r, interiors3) = insert_or_retrieve_child interiors2 (Q_top tb Q1);
            Q2 = Q_pop tb Q1;
            new_entry = fresh\<lparr>entry_count := entry_count (entry l) + entry_count (entry r)\<rparr>;
            new_node = Tree new_entry (Some l) (Some r)
        in (Q_emplace new_entry Q2, interiors3(max_id \<mapsto> new_node), max_id + 1))"

lemma Q_top_in: "Q \<noteq> [] \<Longrightarrow> Q_top tb Q \<in> set Q"
proof -
  assume ne: "Q \<noteq> []"
  have "\<exists>e\<in>set Q. entry_count e = least_count Q" using ne
    by (induction Q) (auto simp: min_def)
  then have c: "filter (\<lambda>e. entry_count e = least_count Q) Q \<noteq> []"
    by (auto simp: filter_empty_conv)
  let ?c = "filter (\<lambda>e. entry_count e = least_count Q) Q"
  have "?c ! (tb Q mod length ?c) \<in> set ?c" using c by (intro nth_mem) simp
  then show ?thesis by (simp add: Q_top_def Let_def del: set_filter) auto
qed

lemma length_Q_pop: "Q \<noteq> [] \<Longrightarrow> length (Q_pop tb Q) = length Q - 1"
  by (simp add: Q_pop_def length_remove1 Q_top_in)

function merge_loop :: "'v tiebreak \<Rightarrow> 'v \<Rightarrow> 'v build_state \<Rightarrow> 'v build_state" where
  "merge_loop tb v0 s =
     (if length (fst s) \<ge> 2 then merge_loop tb v0 (merge_step tb v0 s) else s)"
  by pat_completeness auto
termination
proof (relation "measure (\<lambda>(tb, v0, s). length (fst s))")
  show "wf (measure (\<lambda>(tb, v0, s). length (fst s)))" by simp
next
  fix tb :: "'v tiebreak" and v0 :: 'v and s :: "'v build_state"
  assume len: "2 \<le> length (fst s)"
  obtain Q interiors max_id where s: "s = (Q, interiors, max_id)" by (cases s)
  have q: "Q \<noteq> []" using len s by auto
  have l1: "length (Q_pop tb Q) = length Q - 1" using q by (rule length_Q_pop)
  then have "Q_pop tb Q \<noteq> []" using len s by auto
  then have l2: "length (Q_pop tb (Q_pop tb Q)) = length Q - 2"
    using l1 by (simp add: length_Q_pop)
  have "length (fst (merge_step tb v0 s)) = length Q - 1"
    using l2 len s by (simp add: merge_step_def Let_def Q_emplace_def split: prod.splits)
  then show "((tb, v0, merge_step tb v0 s), (tb, v0, s)) \<in> measure (\<lambda>(tb, v0, s). length (fst s))"
    using len s by simp
qed

declare merge_loop.simps [simp del]

text \<open>
  Queue seeding: one entry per histogram symbol, with id 0. The histogram is a
  \<^verbatim>\<open>std::map<Value, count_t>\<close>: a list of (symbol, count) pairs in iteration order, whose keys
  are distinct.
\<close>

definition seed :: "('v \<times> count_t) list \<Rightarrow> 'v queue_entry list" where
  "seed histogram =
     fold (\<lambda>(v, c). Q_emplace \<lparr>entry_id = 0, entry_value = v, entry_count = c\<rparr>) histogram []"

text \<open>
  Stages 1 and 2 of \<^verbatim>\<open>build_encoding\<close>: the size check, the seeding, the merge loop and the
  lookup of the root \<^verbatim>\<open>interiors.at(max_id-1)\<close>.
\<close>

definition build_tree :: "'v tiebreak \<Rightarrow> 'v \<Rightarrow> ('v \<times> count_t) list \<Rightarrow> error + 'v tree" where
  "build_tree tb v0 histogram =
     (if length histogram \<le> 1 then Inl InsufficientAlphabet
      else case merge_loop tb v0 (seed histogram, Map.empty, 1) of
        (Q, interiors, max_id) \<Rightarrow>
          (case interiors (max_id - 1) of None \<Rightarrow> Inl OutOfRange | Some root \<Rightarrow> Inr root))"

section \<open>build_encoding: the walk\<close>

text \<open>
  \<^verbatim>\<open>walk_impl\<close>: the left child with a 0 bit appended to the path, then the right child
  with a 1 bit, then the node itself if its id is 0. The table
  \<^verbatim>\<open>std::unordered_map<Value, std::vector<bool>>\<close> is an association list with distinct
  keys; \<^verbatim>\<open>encoding[k] = path\<close> is \<open>AList.update\<close>. Its order stands for the unspecified
  iteration order of the hash table; nothing below depends on it.
\<close>

fun walk_impl :: "('v \<times> encoded_t) list \<Rightarrow> 'v tree \<Rightarrow> encoded_t \<Rightarrow> ('v \<times> encoded_t) list" where
  "walk_impl encoding (Tree e l r) path =
     (let enc1 = (case l of Some n \<Rightarrow> walk_impl encoding n (path @ [False]) | None \<Rightarrow> encoding);
          enc2 = (case r of Some n \<Rightarrow> walk_impl enc1 n (path @ [True]) | None \<Rightarrow> enc1)
      in if entry_id e = 0 then AList.update (entry_value e) path enc2 else enc2)"

definition walk :: "'v tree \<Rightarrow> ('v \<times> encoded_t) list" where
  "walk root = walk_impl [] root []"

definition build_encoding ::
  "'v tiebreak \<Rightarrow> 'v \<Rightarrow> ('v \<times> count_t) list \<Rightarrow> error + ('v \<times> encoded_t) list" where
  "build_encoding tb v0 histogram =
     (case build_tree tb v0 histogram of Inl e \<Rightarrow> Inl e | Inr root \<Rightarrow> Inr (walk root))"

text \<open>Shape of a tree: childless nodes are its leaves, nodes with a child are interior.\<close>

fun num_leaves :: "'v tree \<Rightarrow> nat" where
  "num_leaves (Tree e None None) = 1"
| "num_leaves (Tree e l r) =
     (case l of None \<Rightarrow> 0 | Some n \<Rightarrow> num_leaves n) + (case r of None \<Rightarrow> 0 | Some n \<Rightarrow> num_leaves n)"

fun num_interior :: "'v tree \<Rightarrow> nat" where
  "num_interior (Tree e None None) = 0"
| "num_interior (Tree e l r) =
     1 + (case l of None \<Rightarrow> 0 | Some n \<Rightarrow> num_interior n)
       + (case r of None \<Rightarrow> 0 | Some n \<Rightarrow> num_interior n)"

fun leaf_values :: "'v tree \<Rightarrow> 'v list" where
  "leaf_values (Tree e None None) = [entry_value e]"
| "leaf_values (Tree e l r) =
     (case l of None \<Rightarrow> [] | Some n \<Rightarrow> leaf_values n) @ (case r of None \<Rightarrow> [] | Some n \<Rightarrow> leaf_values n)"

text \<open>
  A full tree in the program's sense: a node has no child and id 0, or two children and
  an id other than 0.
\<close>

fun full_tree :: "'v tree \<Rightarrow> bool" where
  "full_tree (Tree e None None) = (entry_id e = 0)"
| "full_tree (Tree e (Some l) (Some r)) = (entry_id e \<noteq> 0 \<and> full_tree l \<and> full_tree r)"
| "full_tree (Tree e l r) = False"

text \<open>The longest codeword of a table: the \<^verbatim>\<open>std::reduce\<close> with \<^verbatim>\<open>std::max\<close> from 0.\<close>

definition max_length :: "('k \<times> encoded_t) list \<Rightarrow> nat" where
  "max_length encoding = fold (\<lambda>(k, c) m. max m (length c)) encoding 0"

text \<open>No codeword of the table is a prefix of the codeword of another symbol.\<close>

definition prefix_free :: "('k \<times> encoded_t) list \<Rightarrow> bool" where
  "prefix_free encoding =
     (\<forall>(k1, c1) \<in> set encoding. \<forall>(k2, c2) \<in> set encoding. k1 \<noteq> k2 \<longrightarrow> \<not> prefix c1 c2)"


section \<open>The length limiter\<close>

text \<open>
  \<^verbatim>\<open>hist[least_symbol]\<close>: the count of a symbol; \<^verbatim>\<open>operator[]\<close> gives the default 0 for a
  missing key.
\<close>

definition hist_at :: "('k \<times> count_t) list \<Rightarrow> 'k \<Rightarrow> count_t" where
  "hist_at hist k = (case map_of hist k of Some c \<Rightarrow> c | None \<Rightarrow> 0)"

text \<open>
  The symbols sorted by their counts. \<^verbatim>\<open>std::sort\<close> leaves the order of symbols of equal
  count open; the definition keeps them in the histogram's order, and \<open>least_to_most\<close>
  holds of every order \<^verbatim>\<open>std::sort\<close> may produce.
\<close>

definition symbols_least_to_most_probable :: "(value_t \<times> count_t) list \<Rightarrow> value_t list" where
  "symbols_least_to_most_probable hist = sort_key (hist_at hist) (map fst hist)"

definition least_to_most :: "(value_t \<times> count_t) list \<Rightarrow> value_t list \<Rightarrow> bool" where
  "least_to_most hist symbols =
     (mset symbols = mset (map fst hist) \<and> sorted (map (hist_at hist) symbols))"

text \<open>
  \<^verbatim>\<open>working_hist\<close> is a \<^verbatim>\<open>std::map<std::optional<value_t>, count_t>\<close>, the escape symbol
  \<^verbatim>\<open>std::nullopt\<close> being \<open>None\<close>, the least key. \<^verbatim>\<open>working_hist[std::nullopt] += c\<close> makes
  the entry with count 0 first when there is none.
\<close>

definition working_hist_of :: "(value_t \<times> count_t) list \<Rightarrow> (value_t option \<times> count_t) list" where
  "working_hist_of hist = map (\<lambda>(v, c). (Some v, c)) hist"

definition add_escape ::
  "(value_t option \<times> count_t) list \<Rightarrow> count_t \<Rightarrow> (value_t option \<times> count_t) list" where
  "add_escape working_hist c =
     (case map_of working_hist None of
        Some c0 \<Rightarrow> AList.update None (c0 + c) working_hist
      | None \<Rightarrow> (None, 0 + c) # working_hist)"

text \<open>
  The loop over the symbols. \<^verbatim>\<open>std::invalid_argument\<close> from \<open>build_encoding\<close> is caught
  and becomes \<^verbatim>\<open>std::runtime_error("cannot solve encoding")\<close>; any other exception passes.
  The loop ends at the first table within \<open>allowed_length\<close>, or when the symbols are used
  up, with the table built last (the empty table if none was built).
\<close>

fun limiter_loop ::
  "value_t option tiebreak \<Rightarrow> nat \<Rightarrow> (value_t \<times> count_t) list \<Rightarrow>
   (value_t option \<times> count_t) list \<Rightarrow> (value_t option \<times> encoded_t) list \<Rightarrow> value_t list \<Rightarrow>
   error + (value_t option \<times> encoded_t) list" where
  "limiter_loop tb allowed_length hist working_hist encoding [] = Inr encoding"
| "limiter_loop tb allowed_length hist working_hist encoding (least_symbol # symbols) =
     (let working1 = add_escape working_hist (hist_at hist least_symbol);
          working2 = AList.delete (Some least_symbol) working1
      in case build_encoding tb (Some 0) working2 of
           Inl e \<Rightarrow> Inl (if e = InsufficientAlphabet then Unsolvable else e)
         | Inr encoding' \<Rightarrow>
             if max_length encoding' \<le> allowed_length then Inr encoding'
             else limiter_loop tb allowed_length hist working2 encoding' symbols)"

definition length_limited ::
  "value_t option tiebreak \<Rightarrow> (value_t \<times> count_t) list \<Rightarrow> nat \<Rightarrow>
   error + (value_t option \<times> encoded_t) list" where
  "length_limited tb hist allowed_length =
     limiter_loop tb allowed_length hist (working_hist_of hist) []
       (symbols_least_to_most_probable hist)"

section \<open>The dense table\<close>

text \<open>
  \<^verbatim>\<open>std::max_element(first, last, comp)\<close>: \<open>None\<close> is \<^verbatim>\<open>end()\<close>, returned for an empty
  range; otherwise the first element that no later one exceeds.
\<close>

fun max_element :: "('a \<Rightarrow> 'a \<Rightarrow> bool) \<Rightarrow> 'a list \<Rightarrow> 'a option" where
  "max_element cmp [] = None"
| "max_element cmp (x # xs) =
     Some (fold (\<lambda>y largest. if cmp largest y then y else largest) xs x)"

text \<open>The two comparators; \<^verbatim>\<open>int32_t\<close> keys compare signed.\<close>

fun comp_least :: "value_t option \<times> 'c \<Rightarrow> value_t option \<times> 'c \<Rightarrow> bool" where
  "comp_least (None, _) (None, _) = False"
| "comp_least (Some a, _) (None, _) = False"
| "comp_least (None, _) (Some b, _) = True"
| "comp_least (Some a, _) (Some b, _) = (sint b < sint a)"

fun comp_greatest :: "value_t option \<times> 'c \<Rightarrow> value_t option \<times> 'c \<Rightarrow> bool" where
  "comp_greatest (None, _) (None, _) = False"
| "comp_greatest (Some a, _) (None, _) = False"
| "comp_greatest (None, _) (Some b, _) = True"
| "comp_greatest (Some a, _) (Some b, _) = (sint a < sint b)"

text \<open>
  \<^verbatim>\<open>->first.value()\<close> of the iterator found: undefined on \<^verbatim>\<open>end()\<close>,
  \<^verbatim>\<open>std::bad_optional_access\<close> on the escape symbol.
\<close>

definition non_null_value ::
  "(value_t option \<times> encoded_t \<Rightarrow> value_t option \<times> encoded_t \<Rightarrow> bool) \<Rightarrow>
   (value_t option \<times> encoded_t) list \<Rightarrow> error + value_t" where
  "non_null_value cmp encoding =
     (case max_element cmp encoding of
        None \<Rightarrow> Inl Undefined
      | Some (None, _) \<Rightarrow> Inl BadOptionalAccess
      | Some (Some v, _) \<Rightarrow> Inr v)"

definition least_non_null_value :: "(value_t option \<times> encoded_t) list \<Rightarrow> error + value_t" where
  "least_non_null_value encoding = non_null_value comp_least encoding"

definition greatest_non_null_value :: "(value_t option \<times> encoded_t) list \<Rightarrow> error + value_t" where
  "greatest_non_null_value encoding = non_null_value comp_greatest encoding"

text \<open>
  \<^verbatim>\<open>encoding[k]\<close> on the table: the codeword of \<open>k\<close>, or the empty codeword that
  \<^verbatim>\<open>operator[]\<close> inserts for a missing key.
\<close>

definition encoding_at :: "('k \<times> encoded_t) list \<Rightarrow> 'k \<Rightarrow> encoded_t" where
  "encoding_at encoding k = (case map_of encoding k of Some c \<Rightarrow> c | None \<Rightarrow> [])"

text \<open>
  \<^verbatim>\<open>std::vector<std::vector<bool>> encoding_table(greatest - least)\<close> and the loop that fills
  it. The size is an \<^verbatim>\<open>int\<close> difference, computed in 32 bits; a negative one becomes a
  \<^verbatim>\<open>size_t\<close> beyond \<^verbatim>\<open>max_size()\<close>. The key \<^verbatim>\<open>i + least_non_null_value\<close> is narrowed to
  \<^verbatim>\<open>int32_t\<close>.
\<close>

definition encoding_table ::
  "(value_t option \<times> encoded_t) list \<Rightarrow> value_t \<Rightarrow> value_t \<Rightarrow> error + encoded_t list" where
  "encoding_table encoding least greatest =
     (if sint (greatest - least) < 0 then Inl LengthError
      else Inr (map (\<lambda>i. if map_of encoding (Some (of_nat i + least)) \<noteq> None
                          then encoding_at encoding (Some (of_nat i + least))
                          else encoding_at encoding None)
                  [0..<nat (sint (greatest - least))]))"

text \<open>
  Step 2 of \<^verbatim>\<open>main\<close>: the least and greatest coded values, the dense table and the
  escape codeword \<^verbatim>\<open>unpredictable_encoding\<close>.
\<close>

definition materialize ::
  "(value_t option \<times> encoded_t) list \<Rightarrow> error + (encoded_t list \<times> value_t \<times> encoded_t)" where
  "materialize encoding =
     (case least_non_null_value encoding of
        Inl e \<Rightarrow> Inl e
      | Inr least \<Rightarrow>
          (case greatest_non_null_value encoding of
             Inl e \<Rightarrow> Inl e
           | Inr greatest \<Rightarrow>
               (case encoding_table encoding least greatest of
                  Inl e \<Rightarrow> Inl e
                | Inr table \<Rightarrow> Inr (table, least, encoding_at encoding None))))"

section \<open>The encoder and the decoder\<close>

text \<open>
  The encode loop. \<^verbatim>\<open>encode_index\<close> is an \<^verbatim>\<open>int\<close>, the table size is cast to \<^verbatim>\<open>int\<close>. A
  read of the table outside its bounds would be undefined; the model has a branch for it.
\<close>

fun encode_loop ::
  "encoded_t list \<Rightarrow> value_t \<Rightarrow> encoded_t \<Rightarrow> value_t list \<Rightarrow> encoded_t \<times> value_t list \<Rightarrow>
   error + encoded_t \<times> value_t list" where
  "encode_loop table least unpredictable_encoding [] st = Inr st"
| "encode_loop table least unpredictable_encoding (i # sequence) (encoded_sequence, unpredictable) =
     (let encode_index = i - least
      in if sint encode_index < 0 \<or> sint encode_index \<ge> sint (of_nat (length table) :: 32 word)
         then encode_loop table least unpredictable_encoding sequence
                (encoded_sequence @ unpredictable_encoding, unpredictable @ [i])
         else if nat (sint encode_index) \<ge> length table then Inl Undefined
         else if table ! nat (sint encode_index) = unpredictable_encoding
         then encode_loop table least unpredictable_encoding sequence
                (encoded_sequence @ unpredictable_encoding, unpredictable @ [i])
         else encode_loop table least unpredictable_encoding sequence
                (encoded_sequence @ table ! nat (sint encode_index), unpredictable))"

definition encode ::
  "encoded_t list \<Rightarrow> value_t \<Rightarrow> encoded_t \<Rightarrow> value_t list \<Rightarrow> error + encoded_t \<times> value_t list" where
  "encode table least unpredictable_encoding sequence =
     encode_loop table least unpredictable_encoding sequence ([], [])"

text \<open>
  \<^verbatim>\<open>encodings_to_indices\<close>: every table entry mapped to its (last) index, as an \<^verbatim>\<open>int\<close>, then
  the escape codeword mapped to 0.
\<close>

definition encodings_to_indices :: "encoded_t list \<Rightarrow> encoded_t \<Rightarrow> (encoded_t \<rightharpoonup> 32 word)" where
  "encodings_to_indices table unpredictable_encoding =
     (fold (\<lambda>i m. m(table ! i \<mapsto> of_nat i)) [0..<length table] Map.empty)
       (unpredictable_encoding \<mapsto> 0)"

text \<open>
  The decode loop, on the state \<open>(so_far, unpred_idx, decoded_sequence)\<close>. Reading
  \<^verbatim>\<open>unpredictable[unpred_idx]\<close> past the end of the side channel is undefined. When the
  bits are used up the loop ends, whatever \<open>so_far\<close> holds.
\<close>

type_synonym decode_state = "encoded_t \<times> nat \<times> value_t list"

fun decode_loop ::
  "(encoded_t \<rightharpoonup> 32 word) \<Rightarrow> value_t \<Rightarrow> encoded_t \<Rightarrow> value_t list \<Rightarrow> encoded_t \<Rightarrow>
   decode_state \<Rightarrow> error + decode_state" where
  "decode_loop e2i least unpredictable_encoding unpredictable [] st = Inr st"
| "decode_loop e2i least unpredictable_encoding unpredictable (b # bits)
     (so_far, unpred_idx, decoded_sequence) =
     (let so_far' = so_far @ [b]
      in case e2i so_far' of
           None \<Rightarrow> decode_loop e2i least unpredictable_encoding unpredictable bits
                     (so_far', unpred_idx, decoded_sequence)
         | Some idx \<Rightarrow>
             if so_far' \<noteq> unpredictable_encoding
             then decode_loop e2i least unpredictable_encoding unpredictable bits
                    ([], unpred_idx, decoded_sequence @ [idx + least])
             else if unpred_idx < length unpredictable
             then decode_loop e2i least unpredictable_encoding unpredictable bits
                    ([], unpred_idx + 1, decoded_sequence @ [unpredictable ! unpred_idx])
             else Inl Undefined)"

definition decode ::
  "encoded_t list \<Rightarrow> value_t \<Rightarrow> encoded_t \<Rightarrow> value_t list \<Rightarrow> encoded_t \<Rightarrow> error + value_t list" where
  "decode table least unpredictable_encoding unpredictable encoded_sequence =
     (case decode_loop (encodings_to_indices table unpredictable_encoding) least
             unpredictable_encoding unpredictable encoded_sequence ([], 0, []) of
        Inl e \<Rightarrow> Inl e
      | Inr (so_far, unpred_idx, decoded_sequence) \<Rightarrow> Inr decoded_sequence)"

text \<open>
  What the encode loop does with one symbol: the symbol is escaped when its index is
  outside the table or its entry is the escape codeword; its codeword is then the escape
  codeword, and its table entry otherwise.
\<close>

definition escaped :: "encoded_t list \<Rightarrow> value_t \<Rightarrow> encoded_t \<Rightarrow> value_t \<Rightarrow> bool" where
  "escaped table least unpredictable_encoding i =
     (sint (i - least) < 0 \<or> int (length table) \<le> sint (i - least) \<or>
      table ! nat (sint (i - least)) = unpredictable_encoding)"

definition codeword :: "encoded_t list \<Rightarrow> value_t \<Rightarrow> encoded_t \<Rightarrow> value_t \<Rightarrow> encoded_t" where
  "codeword table least unpredictable_encoding i =
     (if escaped table least unpredictable_encoding i then unpredictable_encoding
      else table ! nat (sint (i - least)))"

text \<open>The histogram of \<^verbatim>\<open>main\<close>, in key order.\<close>

definition main_hist :: "(value_t \<times> count_t) list" where
  "main_hist =
     [(- 5, 106), (- 4, 7022), (- 3, 179326), (- 2, 1819395), (- 1, 7248471), (0, 11488681),
      (1, 7253819), (2, 1817008), (3, 179139), (4, 6938), (5, 95)]"

text \<open>
  What the decode loop needs of a dense table and an escape codeword: fewer than \<open>2^31\<close>
  entries, no empty codeword, no codeword a proper prefix of another, and no codeword but
  the escape codeword at two indices.
\<close>

definition decodable :: "encoded_t list \<Rightarrow> encoded_t \<Rightarrow> bool" where
  "decodable table esc =
     (length table < 2 ^ 31 \<and>
      (\<forall>w \<in> insert esc (set table). w \<noteq> []) \<and>
      (\<forall>w1 \<in> insert esc (set table). \<forall>w2 \<in> insert esc (set table). prefix w1 w2 \<longrightarrow> w1 = w2) \<and>
      (\<forall>i j. i < length table \<longrightarrow> j < length table \<longrightarrow> table ! i = table ! j \<longrightarrow>
         table ! i \<noteq> esc \<longrightarrow> i = j))"

section \<open>The serial and the parallel encoder\<close>

text \<open>
  \<^verbatim>\<open>encoding.at(v)\<close> throws \<^verbatim>\<open>std::out_of_range\<close> for a symbol with no codeword.
\<close>

definition at_key :: "('k \<times> encoded_t) list \<Rightarrow> 'k \<Rightarrow> error + encoded_t" where
  "at_key encoding v = (case map_of encoding v of None \<Rightarrow> Inl OutOfRange | Some c \<Rightarrow> Inr c)"

text \<open>
  Stage 4, serial: the codeword of every value appended to \<^verbatim>\<open>std::vector<uint8_t> encoded\<close>,
  one byte 0 or 1 per bit.
\<close>

fun serial_encode ::
  "(value_t \<times> encoded_t) list \<Rightarrow> value_t list \<Rightarrow> 8 word list \<Rightarrow> error + 8 word list" where
  "serial_encode encoding [] encoded = Inr encoded"
| "serial_encode encoding (v # values) encoded =
     (case at_key encoding v of
        Inl e \<Rightarrow> Inl e
      | Inr c \<Rightarrow> serial_encode encoding values (encoded @ map of_bool c))"

text \<open>
  Stage 4, parallel. The two \<^verbatim>\<open>omp for\<close> loops are modelled by what OpenMP defines them to
  compute, whatever the number of threads: the \<^verbatim>\<open>inscan\<close> reduction with
  \<^verbatim>\<open>scan exclusive(acc)\<close> leaves in \<open>offsets[i]\<close> the sum of the codeword lengths before
  position \<open>i\<close>, and in \<open>acc\<close> the value of the last logical iteration, their total. A loop
  over an empty sequence has no last iteration: \<open>acc\<close> has no defined value then, and the
  model has the branch \<open>Undefined\<close> for it. The scatter loop writes each byte of
  \<open>par_encoded\<close> at most once, so the order of its iterations does not matter; a write
  outside \<open>par_encoded\<close> would be undefined. Threads, chunks and the barrier are not
  modelled, and no allocation fails.

  Sizes, offsets and indices are \<^verbatim>\<open>size_t\<close>: their sums and products wrap at \<open>2^64\<close>.
\<close>

definition size_t_wrap :: "nat \<Rightarrow> nat" where
  "size_t_wrap n = n mod 2 ^ 64"

definition largest_encoding :: "(value_t \<times> encoded_t) list \<Rightarrow> nat" where
  "largest_encoding encoding = fold (\<lambda>(key, encoded) largest. max largest (length encoded)) encoding 0"

fun exclusive_scan ::
  "(value_t \<times> encoded_t) list \<Rightarrow> value_t list \<Rightarrow> nat \<Rightarrow> nat list \<Rightarrow> error + nat list \<times> nat" where
  "exclusive_scan encoding [] acc offsets = Inr (offsets, acc)"
| "exclusive_scan encoding (v # values) acc offsets =
     (case at_key encoding v of
        Inl e \<Rightarrow> Inl e
      | Inr c \<Rightarrow> exclusive_scan encoding values (size_t_wrap (acc + length c)) (offsets @ [acc]))"

text \<open>
  The inner loop of the scatter: bit \<open>j\<close> of the codeword goes to index \<open>j + offsets[i]\<close>.
  The second argument is that sum before it wraps.
\<close>

fun write_code :: "8 word list \<Rightarrow> nat \<Rightarrow> encoded_t \<Rightarrow> error + 8 word list" where
  "write_code par_encoded index [] = Inr par_encoded"
| "write_code par_encoded index (b # encoded) =
     (if size_t_wrap index < length par_encoded
      then write_code (par_encoded[size_t_wrap index := of_bool b]) (index + 1) encoded
      else Inl Undefined)"

fun scatter ::
  "(value_t \<times> encoded_t) list \<Rightarrow> value_t list \<Rightarrow> nat list \<Rightarrow> 8 word list \<Rightarrow> error + 8 word list" where
  "scatter encoding (v # values) (offset # offsets) par_encoded =
     (case at_key encoding v of
        Inl e \<Rightarrow> Inl e
      | Inr c \<Rightarrow>
          (case write_code par_encoded offset c of
             Inl e \<Rightarrow> Inl e
           | Inr par_encoded' \<Rightarrow> scatter encoding values offsets par_encoded'))"
| "scatter encoding values offsets par_encoded = Inr par_encoded"

text \<open>\<^verbatim>\<open>par_encoded.resize(acc)\<close>: truncation, or padding with zeros.\<close>

definition resize :: "8 word list \<Rightarrow> nat \<Rightarrow> 8 word list" where
  "resize v n = take n v @ replicate (n - length v) 0"

definition parallel_encode :: "(value_t \<times> encoded_t) list \<Rightarrow> value_t list \<Rightarrow> error + 8 word list" where
  "parallel_encode encoding values =
     (let par_encoded = replicate (size_t_wrap (length values * largest_encoding encoding)) 0
      in if values = [] then Inl Undefined
         else case exclusive_scan encoding values 0 [] of
                Inl e \<Rightarrow> Inl e
              | Inr (offsets, acc) \<Rightarrow>
                  (case scatter encoding values offsets par_encoded of
                     Inl e \<Rightarrow> Inl e
                   | Inr par_encoded' \<Rightarrow> Inr (resize par_encoded' acc)))"

section \<open>The merge loop keeps a forest\<close>

text \<open>
  The tree a queue entry stands for: the interior node stored under its id, or the leaf
  that \<open>insert_or_retrieve_child\<close> would make of it.
\<close>

definition node_of :: "(nat \<rightharpoonup> 'v tree) \<Rightarrow> 'v queue_entry \<Rightarrow> 'v tree" where
  "node_of interiors e =
     (case interiors (entry_id e) of
        Some t \<Rightarrow> t
      | None \<Rightarrow> Tree \<lparr>entry_id = 0, entry_value = entry_value e, entry_count = entry_count e\<rparr> None None)"

lemma fst_insert_or_retrieve_child: "fst (insert_or_retrieve_child interiors e) = node_of interiors e"
  by (simp add: node_of_def insert_or_retrieve_child_def split: option.splits)

text \<open>
  The side table and the queue agree: no node is stored under id 0, the interior entries of
  the queue have distinct ids, and each of them has its node in the table.
\<close>

definition table_ok :: "'v queue_entry list \<Rightarrow> (nat \<rightharpoonup> 'v tree) \<Rightarrow> bool" where
  "table_ok Q interiors =
     (interiors 0 = None \<and> distinct (filter (\<lambda>i. i \<noteq> 0) (map entry_id Q)) \<and>
      (\<forall>e\<in>set Q. entry_id e \<noteq> 0 \<longrightarrow> interiors (entry_id e) \<noteq> None))"

lemma Q_pop_split:
  assumes "Q \<noteq> []"
  shows "\<exists>ys zs. Q = ys @ Q_top tb Q # zs \<and> Q_pop tb Q = ys @ zs"
proof -
  from Q_top_in [OF assms] obtain ys zs where
    q: "Q = ys @ Q_top tb Q # zs" and n: "Q_top tb Q \<notin> set ys"
    by (meson split_list_first)
  have "remove1 (Q_top tb Q) (ys @ Q_top tb Q # zs) = ys @ zs"
    using n by (simp add: remove1_append)
  then have "Q_pop tb Q = ys @ zs" using q by (simp add: Q_pop_def)
  with q show ?thesis by blast
qed

lemma retrieve_child:
  assumes ok: "table_ok Q interiors" and ne: "Q \<noteq> []"
    and r: "insert_or_retrieve_child interiors (Q_top tb Q) = (t, interiors')"
  shows "table_ok (Q_pop tb Q) interiors'"
    and "t = node_of interiors (Q_top tb Q)"
    and "\<forall>e\<in>set (Q_pop tb Q). node_of interiors' e = node_of interiors e"
    and "mset Q = add_mset (Q_top tb Q) (mset (Q_pop tb Q))"
    and "\<forall>k. k \<notin> entry_id ` set Q \<longrightarrow> interiors' k = interiors k"
    and "set (Q_pop tb Q) \<subseteq> set Q"
proof -
  obtain ys zs where q: "Q = ys @ Q_top tb Q # zs" and p: "Q_pop tb Q = ys @ zs"
    using Q_pop_split [OF ne] by blast
  let ?e = "Q_top tb Q"
  show "t = node_of interiors ?e" using r fst_insert_or_retrieve_child [of interiors ?e] by simp
  show "mset Q = add_mset ?e (mset (Q_pop tb Q))" by (subst q, subst p) simp
  show "set (Q_pop tb Q) \<subseteq> set Q" by (subst q, subst p) auto
  have int': "interiors' = (if interiors (entry_id ?e) = None then interiors
      else interiors(entry_id ?e := None))"
    using r by (auto simp: insert_or_retrieve_child_def split: option.splits)
  have z: "interiors 0 = None" using ok by (simp add: table_ok_def)
  have d: "distinct (filter (\<lambda>i. i \<noteq> 0) (map entry_id (ys @ ?e # zs)))"
    using ok q unfolding table_ok_def by metis
  have other: "entry_id e \<noteq> entry_id ?e" if "e \<in> set (ys @ zs)" "entry_id ?e \<noteq> 0" for e
  proof -
    from d that(2) have "entry_id ?e \<notin> entry_id ` set ys" "entry_id ?e \<notin> entry_id ` set zs"
      by auto
    then have "entry_id ?e \<notin> entry_id ` set (ys @ zs)" by auto
    then show ?thesis using that(1) by (metis imageI)
  qed
  have same: "interiors' (entry_id e) = interiors (entry_id e)" if "e \<in> set (ys @ zs)" for e
  proof (cases "interiors (entry_id ?e) = None")
    case True then show ?thesis by (simp add: int')
  next
    case False
    then have "entry_id ?e \<noteq> 0" using z by (cases "entry_id ?e = 0") simp_all
    then show ?thesis using other [OF that] by (simp add: int')
  qed
  show "\<forall>e\<in>set (Q_pop tb Q). node_of interiors' e = node_of interiors e"
    using same by (simp add: p node_of_def)
  show "\<forall>k. k \<notin> entry_id ` set Q \<longrightarrow> interiors' k = interiors k"
    by (subst q) (auto simp: int')
  have pres: "\<forall>e\<in>set (ys @ zs). entry_id e \<noteq> 0 \<longrightarrow> interiors (entry_id e) \<noteq> None"
    using ok q unfolding table_ok_def by (metis Un_iff list.set_intros(2) set_append)
  show "table_ok (Q_pop tb Q) interiors'"
    unfolding table_ok_def p
  proof (intro conjI)
    show "interiors' 0 = None" using z by (simp add: int')
    show "distinct (filter (\<lambda>i. i \<noteq> 0) (map entry_id (ys @ zs)))"
      using d by (auto split: if_splits)
    show "\<forall>e\<in>set (ys @ zs). entry_id e \<noteq> 0 \<longrightarrow> interiors' (entry_id e) \<noteq> None"
      using pres same by simp
  qed
qed

lemma table_ok_fresh:
  assumes "table_ok Q interiors" "k \<notin> entry_id ` set Q" "k \<noteq> 0"
  shows "table_ok Q (interiors(k \<mapsto> t))"
    and "\<forall>e\<in>set Q. node_of (interiors(k \<mapsto> t)) e = node_of interiors e"
  using assms by (auto simp: table_ok_def node_of_def)

lemma table_ok_emplace:
  assumes "table_ok Q interiors" "entry_id e \<notin> entry_id ` set Q" "interiors (entry_id e) \<noteq> None"
  shows "table_ok (Q_emplace e Q) interiors"
  using assms by (auto simp: table_ok_def Q_emplace_def)

text \<open>
  The loop invariant, for a histogram whose symbols are the multiset \<open>ks\<close>: the entries of
  the queue stand for full trees whose leaves are \<open>ks\<close>, and \<open>max_id - 1\<close> interior nodes
  have been made, the last of them still in the queue.
\<close>

definition build_inv :: "'v multiset \<Rightarrow> 'v build_state \<Rightarrow> bool" where
  "build_inv ks s =
     (case s of (Q, interiors, max_id) \<Rightarrow>
        1 \<le> max_id \<and> length Q + max_id = size ks + 1 \<and>
        table_ok Q interiors \<and>
        (\<forall>e\<in>set Q. entry_id e < max_id \<and> full_tree (node_of interiors e)) \<and>
        (\<Sum>e\<in>#mset Q. num_interior (node_of interiors e)) + 1 = max_id \<and>
        (\<Sum>e\<in>#mset Q. mset (leaf_values (node_of interiors e))) = ks \<and>
        (1 < max_id \<longrightarrow> (\<exists>e\<in>set Q. entry_id e = max_id - 1)))"

lemma build_inv_step:
  assumes inv: "build_inv ks (Q, interiors, max_id)" and len: "2 \<le> length Q"
  shows "build_inv ks (merge_step tb v0 (Q, interiors, max_id))"
proof -
  define fresh where "fresh = \<lparr>entry_id = max_id, entry_value = v0, entry_count = 0\<rparr>"
  define ints1 where "ints1 = interiors(max_id \<mapsto> Tree fresh None None)"
  define e1 where "e1 = Q_top tb Q"
  define Q1 where "Q1 = Q_pop tb Q"
  define e2 where "e2 = Q_top tb Q1"
  define Q2 where "Q2 = Q_pop tb Q1"
  obtain l ints2 where r1: "insert_or_retrieve_child ints1 (Q_top tb Q) = (l, ints2)"
    by fastforce
  obtain r ints3 where r2: "insert_or_retrieve_child ints2 (Q_top tb Q1) = (r, ints3)"
    by fastforce
  define new_entry where
    "new_entry = fresh\<lparr>entry_count := entry_count (entry l) + entry_count (entry r)\<rparr>"
  define new_node where "new_node = Tree new_entry (Some l) (Some r)"
  define ints4 where "ints4 = ints3(max_id \<mapsto> new_node)"
  have step: "merge_step tb v0 (Q, interiors, max_id) = (Q_emplace new_entry Q2, ints4, max_id + 1)"
    using r1 r2
    by (simp add: merge_step_def Let_def fresh_def ints1_def Q1_def Q2_def new_entry_def
        new_node_def ints4_def)
  have id_new: "entry_id new_entry = max_id" by (simp add: new_entry_def fresh_def)
  from inv have pos: "1 \<le> max_id" and sz: "length Q + max_id = size ks + 1"
    and ok: "table_ok Q interiors"
    and ids: "\<forall>e\<in>set Q. entry_id e < max_id"
    and full: "\<forall>e\<in>set Q. full_tree (node_of interiors e)"
    and ni: "(\<Sum>e\<in>#mset Q. num_interior (node_of interiors e)) + 1 = max_id"
    and lv: "(\<Sum>e\<in>#mset Q. mset (leaf_values (node_of interiors e))) = ks"
    by (simp_all add: build_inv_def)
  have fresh_Q: "max_id \<notin> entry_id ` set Q" using ids by auto
  have nz: "max_id \<noteq> 0" using pos by simp
  have ok1: "table_ok Q ints1" and same1: "\<forall>e\<in>set Q. node_of ints1 e = node_of interiors e"
    unfolding ints1_def using table_ok_fresh [OF ok fresh_Q nz] by blast+
  have Qne: "Q \<noteq> []" using len by auto
  have ok2: "table_ok Q1 ints2" and l: "l = node_of ints1 e1"
    and same2: "\<forall>e\<in>set Q1. node_of ints2 e = node_of ints1 e"
    and m1: "mset Q = add_mset e1 (mset Q1)" and sub1: "set Q1 \<subseteq> set Q"
    unfolding Q1_def e1_def using retrieve_child [OF ok1 Qne r1] by blast+
  have len1: "length Q1 = length Q - 1" unfolding Q1_def using Qne by (rule length_Q_pop)
  have Q1ne: "Q1 \<noteq> []" using len len1 by auto
  have ok3: "table_ok Q2 ints3" and r: "r = node_of ints2 e2"
    and same3: "\<forall>e\<in>set Q2. node_of ints3 e = node_of ints2 e"
    and m2: "mset Q1 = add_mset e2 (mset Q2)" and sub2: "set Q2 \<subseteq> set Q1"
    unfolding Q2_def e2_def using retrieve_child [OF ok2 Q1ne r2] by blast+
  have len2: "length Q2 = length Q - 2"
    unfolding Q2_def using Q1ne len1 by (simp add: length_Q_pop)
  have e1_in: "e1 \<in> set Q" unfolding e1_def using Qne by (rule Q_top_in)
  have e2_in1: "e2 \<in> set Q1" unfolding e2_def using Q1ne by (rule Q_top_in)
  have e2_in: "e2 \<in> set Q" using e2_in1 sub1 by auto
  have sub: "set Q2 \<subseteq> set Q" using sub1 sub2 by auto
  have l': "l = node_of interiors e1" using l same1 e1_in by simp
  have r': "r = node_of interiors e2" using r same2 same1 e2_in1 e2_in by simp
  have fresh_Q2: "max_id \<notin> entry_id ` set Q2" using fresh_Q sub by auto
  have ok4: "table_ok Q2 ints4" and same4: "\<forall>e\<in>set Q2. node_of ints4 e = node_of ints3 e"
    unfolding ints4_def using table_ok_fresh [OF ok3 fresh_Q2 nz] by blast+
  have same: "node_of ints4 e = node_of interiors e" if "e \<in> set Q2" for e
    using that same4 same3 same2 same1 sub2 sub by (metis subsetD)
  have node_new: "node_of ints4 new_entry = new_node"
    by (simp add: node_of_def ints4_def id_new)
  have ok5: "table_ok (Q_emplace new_entry Q2) ints4"
    using ok4 fresh_Q2 by (intro table_ok_emplace) (simp_all add: id_new ints4_def)
  have mQ: "mset Q = add_mset e1 (add_mset e2 (mset Q2))" using m1 m2 by simp
  have full_new: "full_tree new_node"
    using full e1_in e2_in nz by (simp add: new_node_def l' r' id_new)
  have ni_new: "num_interior new_node = 1 + num_interior l + num_interior r"
    by (simp add: new_node_def)
  have lv_new: "leaf_values new_node = leaf_values l @ leaf_values r"
    by (simp add: new_node_def)
  have img_ni: "image_mset (\<lambda>e. num_interior (node_of ints4 e)) (mset Q2)
      = image_mset (\<lambda>e. num_interior (node_of interiors e)) (mset Q2)"
    by (rule image_mset_cong) (simp add: same)
  have img_lv: "image_mset (\<lambda>e. mset (leaf_values (node_of ints4 e))) (mset Q2)
      = image_mset (\<lambda>e. mset (leaf_values (node_of interiors e))) (mset Q2)"
    by (rule image_mset_cong) (simp add: same)
  have "build_inv ks (Q_emplace new_entry Q2, ints4, max_id + 1)"
    unfolding build_inv_def prod.case
  proof (intro conjI)
    show "1 \<le> max_id + 1" by simp
    show "length (Q_emplace new_entry Q2) + (max_id + 1) = size ks + 1"
      using sz len len2 by (simp add: Q_emplace_def)
    show "table_ok (Q_emplace new_entry Q2) ints4" by (rule ok5)
    show "\<forall>e\<in>set (Q_emplace new_entry Q2). entry_id e < max_id + 1 \<and> full_tree (node_of ints4 e)"
    proof
      fix e assume "e \<in> set (Q_emplace new_entry Q2)"
      then consider "e \<in> set Q2" | "e = new_entry" by (auto simp: Q_emplace_def)
      then show "entry_id e < max_id + 1 \<and> full_tree (node_of ints4 e)"
      proof cases
        case 1
        then have "e \<in> set Q" using sub by auto
        then have "entry_id e < max_id" "full_tree (node_of interiors e)"
          using ids full by auto
        then show ?thesis using same [OF 1] by simp
      next
        case 2
        then show ?thesis using full_new node_new id_new by simp
      qed
    qed
    show "(\<Sum>e\<in>#mset (Q_emplace new_entry Q2). num_interior (node_of ints4 e)) + 1 = max_id + 1"
      using ni by (simp add: Q_emplace_def node_new ni_new img_ni mQ l' r')
    show "(\<Sum>e\<in>#mset (Q_emplace new_entry Q2). mset (leaf_values (node_of ints4 e))) = ks"
      using lv by (simp add: Q_emplace_def node_new lv_new img_lv mQ l' r' ac_simps)
    show "1 < max_id + 1 \<longrightarrow> (\<exists>e\<in>set (Q_emplace new_entry Q2). entry_id e = max_id + 1 - 1)"
      by (simp add: Q_emplace_def id_new)
  qed
  then show ?thesis by (simp add: step)
qed

lemma build_inv_loop: "build_inv ks s \<Longrightarrow> build_inv ks (merge_loop tb v0 s)"
proof (induction tb v0 s rule: merge_loop.induct)
  case (1 tb v0 s)
  show ?case
  proof (cases "2 \<le> length (fst s)")
    case True
    obtain Q interiors max_id where s: "s = (Q, interiors, max_id)" by (cases s)
    have "build_inv ks (merge_step tb v0 s)"
      using "1.prems" True unfolding s by (intro build_inv_step) simp_all
    then have "build_inv ks (merge_loop tb v0 (merge_step tb v0 s))"
      using "1.IH" True by simp
    then show ?thesis using True by (subst merge_loop.simps) simp
  next
    case False
    then show ?thesis using "1.prems" by (subst merge_loop.simps) simp
  qed
qed

lemma length_merge_loop: "length (fst (merge_loop tb v0 s)) < 2"
proof (induction tb v0 s rule: merge_loop.induct)
  case (1 tb v0 s)
  then show ?case by (subst merge_loop.simps) simp
qed

lemma seed_eq:
  "seed histogram = map (\<lambda>(v, c). \<lparr>entry_id = 0, entry_value = v, entry_count = c\<rparr>) histogram"
proof -
  have "fold (\<lambda>(v, c). Q_emplace \<lparr>entry_id = 0, entry_value = v, entry_count = c\<rparr>) h acc
      = acc @ map (\<lambda>(v, c). \<lparr>entry_id = 0, entry_value = v, entry_count = c\<rparr>) h"
    for h :: "('a \<times> count_t) list" and acc
    by (induction h arbitrary: acc) (auto simp: Q_emplace_def)
  then show ?thesis by (simp add: seed_def)
qed

lemma build_inv_seed: "build_inv (mset (map fst histogram)) (seed histogram, Map.empty, 1)"
proof -
  have a: "(\<Sum>e\<in>#mset (seed h). num_interior (node_of Map.empty e)) = 0" for h :: "('a \<times> count_t) list"
    by (induction h) (auto simp: seed_eq node_of_def)
  have b: "(\<Sum>e\<in>#mset (seed h). mset (leaf_values (node_of Map.empty e))) = mset (map fst h)"
    for h :: "('a \<times> count_t) list"
    by (induction h) (auto simp: seed_eq node_of_def)
  have c: "\<forall>e\<in>set (seed histogram). entry_id e = 0" by (auto simp: seed_eq)
  have d: "filter (\<lambda>i. i \<noteq> 0) (map entry_id (seed histogram)) = []"
    using c by (simp add: filter_empty_conv)
  have e: "length (seed histogram) = length histogram" by (simp add: seed_eq)
  have f: "\<forall>e\<in>set (seed histogram). full_tree (node_of Map.empty e)"
    by (simp add: node_of_def)
  show ?thesis
    unfolding build_inv_def prod.case
    using c f by (simp add: a b d e table_ok_def)
qed

lemma build_tree_ok:
  assumes n: "2 \<le> length histogram"
  shows "\<exists>root. build_tree tb v0 histogram = Inr root \<and> full_tree root
           \<and> num_interior root + 1 = length histogram
           \<and> mset (leaf_values root) = mset (map fst histogram)
           \<and> snd (snd (merge_loop tb v0 (seed histogram, Map.empty, 1))) = length histogram"
proof -
  obtain Q interiors max_id where
    m: "merge_loop tb v0 (seed histogram, Map.empty, 1) = (Q, interiors, max_id)"
    by (cases "merge_loop tb v0 (seed histogram, Map.empty, 1)")
  have inv: "build_inv (mset (map fst histogram)) (Q, interiors, max_id)"
    using build_inv_loop [OF build_inv_seed, of histogram tb v0] m by simp
  have short: "length Q < 2"
    using length_merge_loop [of tb v0 "(seed histogram, Map.empty, 1)"] m by simp
  from inv have sz: "length Q + max_id = length histogram + 1"
    and ok: "table_ok Q interiors"
    and full: "\<forall>e\<in>set Q. full_tree (node_of interiors e)"
    and ni: "(\<Sum>e\<in>#mset Q. num_interior (node_of interiors e)) + 1 = max_id"
    and lv: "(\<Sum>e\<in>#mset Q. mset (leaf_values (node_of interiors e))) = mset (map fst histogram)"
    and last: "1 < max_id \<longrightarrow> (\<exists>e\<in>set Q. entry_id e = max_id - 1)"
    by (simp_all add: build_inv_def)
  have big: "1 < max_id" using sz short n by simp
  then obtain e where e: "e \<in> set Q" and ide: "entry_id e = max_id - 1" using last by blast
  have Q: "Q = [e]" using e short by (cases Q) auto
  have mid: "max_id = length histogram" using sz Q by simp
  have "entry_id e \<noteq> 0" using ide big by simp
  then obtain root where root: "interiors (max_id - 1) = Some root"
    using ok e ide by (auto simp: table_ok_def)
  have node: "node_of interiors e = root" using root ide by (simp add: node_of_def)
  have bt: "build_tree tb v0 histogram = Inr root"
    using n m root by (simp add: build_tree_def)
  show ?thesis
    using bt full ni lv node mid m by (simp add: Q)
qed

section \<open>The walk records one path per leaf\<close>

text \<open>The assignments of \<open>walk_impl\<close>, in the order it makes them.\<close>

fun codes :: "'v tree \<Rightarrow> encoded_t \<Rightarrow> ('v \<times> encoded_t) list" where
  "codes (Tree e l r) path =
     (case l of Some n \<Rightarrow> codes n (path @ [False]) | None \<Rightarrow> []) @
     (case r of Some n \<Rightarrow> codes n (path @ [True]) | None \<Rightarrow> []) @
     (if entry_id e = 0 then [(entry_value e, path)] else [])"

lemma walk_impl_codes:
  "walk_impl encoding t path = fold (\<lambda>(v, p). AList.update v p) (codes t path) encoding"
  by (induction encoding t path rule: walk_impl.induct)
     (simp add: Let_def split: option.splits)

lemma fold_update_fresh:
  assumes "distinct (map fst xs)" "fst ` set xs \<inter> fst ` set acc = {}"
  shows "fold (\<lambda>(v, p). AList.update v p) xs acc = acc @ xs"
  using assms
proof (induction xs arbitrary: acc)
  case Nil
  then show ?case by simp
next
  case (Cons x xs)
  obtain k c where x: "x = (k, c)" by (cases x)
  have "k \<notin> fst ` set acc" using Cons.prems x by auto
  then have u: "AList.update k c acc = acc @ [(k, c)]"
    by (induction acc) auto
  have "fold (\<lambda>(v, p). AList.update v p) xs (acc @ [(k, c)]) = (acc @ [(k, c)]) @ xs"
    using Cons.prems x by (intro Cons.IH) auto
  then show ?case by (simp add: x u)
qed

lemma codes_keys: "full_tree t \<Longrightarrow> map fst (codes t path) = leaf_values t"
  by (induction t arbitrary: path rule: full_tree.induct) simp_all

lemma codes_prefix: "(k, c) \<in> set (codes t path) \<Longrightarrow> prefix path c"
proof (induction t path arbitrary: k c rule: codes.induct)
  case (1 e l r path)
  from "1.prems" consider
      n where "l = Some n" "(k, c) \<in> set (codes n (path @ [False]))"
    | n where "r = Some n" "(k, c) \<in> set (codes n (path @ [True]))"
    | "c = path"
    by (auto split: option.splits if_splits)
  then show ?case
  proof cases
    case 1
    then have "prefix (path @ [False]) c" using "1.IH"(1) by blast
    then show ?thesis by (rule append_prefixD)
  next
    case 2
    then have "prefix (path @ [True]) c" using "1.IH"(2) by blast
    then show ?thesis by (rule append_prefixD)
  next
    case 3
    then show ?thesis by simp
  qed
qed

lemma branch_not_prefix:
  assumes "prefix (path @ [a]) c1" "prefix (path @ [b]) c2" "a \<noteq> b"
  shows "\<not> prefix c1 c2"
proof
  assume "prefix c1 c2"
  then have "prefix (path @ [a]) c2" using assms(1) by (rule prefix_order.trans [rotated])
  with assms(2) have "prefix (path @ [a]) (path @ [b]) \<or> prefix (path @ [b]) (path @ [a])"
    by (rule prefix_same_cases [THEN disjE]) auto
  then show False using assms(3) by auto
qed

lemma codes_prefix_free:
  "full_tree t \<Longrightarrow> distinct (leaf_values t) \<Longrightarrow> prefix_free (codes t path)"
proof (induction t arbitrary: path rule: full_tree.induct)
  case (1 e)
  then show ?case by (simp add: prefix_free_def)
next
  case (2 e l r)
  have pl: "prefix_free (codes l (path @ [False]))" and pr: "prefix_free (codes r (path @ [True]))"
    using 2 by auto
  have cross: "\<not> prefix c1 c2 \<and> \<not> prefix c2 c1"
    if "(k1, c1) \<in> set (codes l (path @ [False]))" "(k2, c2) \<in> set (codes r (path @ [True]))"
    for k1 c1 k2 c2
    using codes_prefix [OF that(1)] codes_prefix [OF that(2)]
    by (auto dest: branch_not_prefix)
  have "codes (Tree e (Some l) (Some r)) path
      = codes l (path @ [False]) @ codes r (path @ [True])"
    using "2.prems" by simp
  then show ?case
    using pl pr cross unfolding prefix_free_def by (simp add: ball_Un) blast
qed (simp_all)

lemma build_encoding_ok:
  assumes n: "2 \<le> length histogram" and d: "distinct (map fst histogram)"
  shows "\<exists>encoding. build_encoding tb v0 histogram = Inr encoding
           \<and> mset (map fst encoding) = mset (map fst histogram)
           \<and> prefix_free encoding"
proof -
  obtain root where bt: "build_tree tb v0 histogram = Inr root" and full: "full_tree root"
    and lv: "mset (leaf_values root) = mset (map fst histogram)"
    using build_tree_ok [OF n, of tb v0] by blast
  have dl: "distinct (leaf_values root)" using lv d by (metis mset_eq_imp_distinct_iff)
  have "distinct (map fst (codes root []))" using dl full by (simp add: codes_keys)
  then have w: "walk root = codes root []"
    by (simp add: walk_def walk_impl_codes fold_update_fresh)
  have "mset (map fst (codes root [])) = mset (map fst histogram)"
    using lv full by (simp only: codes_keys)
  then show ?thesis
    using bt w codes_prefix_free [OF full dl, of "[]"]
    by (simp add: build_encoding_def)
qed

lemma num_leaves_length: "num_leaves t = length (leaf_values t)"
  by (induction t rule: num_leaves.induct) (simp_all split: option.splits)

section \<open>Claims about build_encoding\<close>

text \<open>
  C3. For a histogram with \<open>n \<ge> 2\<close> entries (a \<^verbatim>\<open>std::map\<close>: distinct keys), whatever the
  tie-break: the merge loop ends with \<open>max_id = n\<close>, that is, its body ran \<open>n - 1\<close> times; the
  root found under \<open>max_id - 1\<close> is a full tree with \<open>n - 1\<close> interior nodes and \<open>n\<close> leaves; and
  in the table the walk returns no codeword is a prefix of the codeword of another symbol.
\<close>

theorem build_encoding_full_prefix_free:
  assumes "2 \<le> length histogram" and "distinct (map fst histogram)"
  shows "\<exists>root encoding.
           build_tree tb v0 histogram = Inr root \<and>
           build_encoding tb v0 histogram = Inr encoding \<and>
           snd (snd (merge_loop tb v0 (seed histogram, Map.empty, 1))) = length histogram \<and>
           full_tree root \<and>
           num_interior root = length histogram - 1 \<and>
           num_leaves root = length histogram \<and>
           prefix_free encoding"
proof -
  obtain root where bt: "build_tree tb v0 histogram = Inr root" and full: "full_tree root"
    and ni: "num_interior root + 1 = length histogram"
    and lv: "mset (leaf_values root) = mset (map fst histogram)"
    and it: "snd (snd (merge_loop tb v0 (seed histogram, Map.empty, 1))) = length histogram"
    using build_tree_ok [OF assms(1), of tb v0] by blast
  obtain encoding where be: "build_encoding tb v0 histogram = Inr encoding"
    and pf: "prefix_free encoding"
    using build_encoding_ok [OF assms, of tb v0] by blast
  have "length (leaf_values root) = length histogram"
    using lv by (metis length_map size_mset)
  then have nl: "num_leaves root = length histogram" by (simp add: num_leaves_length)
  show ?thesis using bt be it full ni nl pf by simp
qed

theorem build_encoding_full_prefix_free_witness:
  "2 \<le> length [(Some (2::value_t), 1::count_t), (Some 3, 2), (None, 1)] \<and>
   distinct (map fst [(Some (2::value_t), 1::count_t), (Some 3, 2), (None, 1)]) \<and>
   (\<exists>root encoding.
      build_tree first_least (Some 0) [(Some (2::value_t), 1::count_t), (Some 3, 2), (None, 1)]
        = Inr root \<and>
      build_encoding first_least (Some 0) [(Some (2::value_t), 1::count_t), (Some 3, 2), (None, 1)]
        = Inr encoding \<and>
      snd (snd (merge_loop first_least (Some 0)
        (seed [(Some (2::value_t), 1::count_t), (Some 3, 2), (None, 1)], Map.empty, 1))) =
        length [(Some (2::value_t), 1::count_t), (Some 3, 2), (None, 1)] \<and>
      full_tree root \<and>
      num_interior root = length [(Some (2::value_t), 1::count_t), (Some 3, 2), (None, 1)] - 1 \<and>
      num_leaves root = length [(Some (2::value_t), 1::count_t), (Some 3, 2), (None, 1)] \<and>
      prefix_free encoding)"
proof -
  have a: "2 \<le> length [(Some (2::value_t), 1::count_t), (Some 3, 2), (None, 1)]" by simp
  have b: "distinct (map fst [(Some (2::value_t), 1::count_t), (Some 3, 2), (None, 1)])" by simp
  show ?thesis
    using a b build_encoding_full_prefix_free [OF a b, of first_least "Some 0"] by blast
qed

text \<open>
  C8. \<open>build_encoding\<close> fails with \<open>InsufficientAlphabet\<close> exactly for the histograms with
  fewer than 2 entries.
\<close>

theorem build_encoding_insufficient_iff:
  "build_encoding tb v0 histogram = Inl InsufficientAlphabet \<longleftrightarrow> length histogram < 2"
proof (cases "2 \<le> length histogram")
  case True
  then obtain root where "build_tree tb v0 histogram = Inr root"
    using build_tree_ok [of histogram tb v0] by blast
  then show ?thesis using True by (simp add: build_encoding_def)
next
  case False
  then show ?thesis by (simp add: build_encoding_def build_tree_def)
qed

text \<open>
  C9. For a histogram with at least 2 entries, the table \<open>build_encoding\<close> returns has
  exactly the histogram's symbols as its keys, each of them once.
\<close>

theorem build_encoding_keys:
  assumes "2 \<le> length histogram" and "distinct (map fst histogram)"
  shows "\<exists>encoding. build_encoding tb v0 histogram = Inr encoding \<and>
           set (map fst encoding) = set (map fst histogram) \<and>
           distinct (map fst encoding) \<and> length encoding = length histogram"
proof -
  obtain encoding where be: "build_encoding tb v0 histogram = Inr encoding"
    and ks: "mset (map fst encoding) = mset (map fst histogram)"
    using build_encoding_ok [OF assms, of tb v0] by blast
  have "set (map fst encoding) = set (map fst histogram)" using ks by (rule mset_eq_setD)
  moreover have "distinct (map fst encoding)"
    using ks assms(2) by (metis mset_eq_imp_distinct_iff)
  moreover have "length encoding = length histogram"
    using ks by (metis length_map size_mset)
  ultimately show ?thesis using be by blast
qed

theorem build_encoding_keys_witness:
  "2 \<le> length [(5::value_t, 95::count_t), (- 5, 106), (0, 11488681)] \<and>
   distinct (map fst [(5::value_t, 95::count_t), (- 5, 106), (0, 11488681)]) \<and>
   (\<exists>encoding.
      build_encoding first_least 0 [(5::value_t, 95::count_t), (- 5, 106), (0, 11488681)]
        = Inr encoding \<and>
      set (map fst encoding) = set (map fst [(5::value_t, 95::count_t), (- 5, 106), (0, 11488681)]) \<and>
      distinct (map fst encoding) \<and>
      length encoding = length [(5::value_t, 95::count_t), (- 5, 106), (0, 11488681)])"
proof -
  have a: "2 \<le> length [(5::value_t, 95::count_t), (- 5, 106), (0, 11488681)]" by simp
  have b: "distinct (map fst [(5::value_t, 95::count_t), (- 5, 106), (0, 11488681)])" by simp
  show ?thesis
    using a b build_encoding_keys [OF a b, of first_least 0] by blast
qed

section \<open>What the length limiter returns\<close>

text \<open>
  A table as the limiter builds them: distinct keys, prefix-free, at least two entries,
  one of them the escape symbol.
\<close>

definition code_ok :: "(value_t option \<times> encoded_t) list \<Rightarrow> bool" where
  "code_ok encoding =
     (distinct (map fst encoding) \<and> prefix_free encoding \<and> None \<in> fst ` set encoding \<and>
      2 \<le> length encoding)"

lemma build_encoding_short:
  "length histogram < 2 \<Longrightarrow> build_encoding tb v0 histogram = Inl InsufficientAlphabet"
  by (simp add: build_encoding_def build_tree_def)

lemma add_escape_map_fst:
  "map fst (add_escape working_hist c) =
     (if None \<in> set (map fst working_hist) then map fst working_hist
      else None # map fst working_hist)"
proof (cases "map_of working_hist None")
  case None
  then have "None \<notin> set (map fst working_hist)" by (simp add: map_of_eq_None_iff)
  then show ?thesis using None by (simp add: add_escape_def)
next
  case (Some c0)
  then have in_keys: "None \<in> set (map fst working_hist)"
    by (metis map_of_eq_None_iff option.distinct(1) set_map)
  have "map fst (AList.update None (c0 + c) working_hist) = map fst working_hist"
    using in_keys by (simp only: update_keys if_True)
  then show ?thesis using Some in_keys by (simp only: add_escape_def option.case if_True)
qed

lemma add_escape_keys:
  "set (map fst (add_escape working_hist c)) = insert None (set (map fst working_hist))"
  by (simp only: add_escape_map_fst) (auto simp del: set_map)

lemma add_escape_distinct:
  "distinct (map fst working_hist) \<Longrightarrow> distinct (map fst (add_escape working_hist c))"
  by (auto simp: add_escape_def distinct_update map_of_eq_None_iff split: option.splits)

lemma limiter_loop_result:
  assumes "distinct (map fst working_hist)"
    and "fst ` set working_hist \<subseteq> insert None (Some ` set symbols)"
    and "symbols \<noteq> []"
  shows "limiter_loop tb L hist working_hist encoding symbols = Inl Unsolvable \<or>
         (\<exists>enc. limiter_loop tb L hist working_hist encoding symbols = Inr enc \<and>
                max_length enc \<le> L \<and> code_ok enc)"
  using assms
proof (induction symbols arbitrary: working_hist encoding)
  case Nil
  then show ?case by simp
next
  case (Cons s rest)
  define working1 where "working1 = add_escape working_hist (hist_at hist s)"
  define working2 where "working2 = AList.delete (Some s) working1"
  have d2: "distinct (map fst working2)"
    unfolding working2_def working1_def
    using Cons.prems(1) by (intro distinct_delete add_escape_distinct)
  have "set (map fst working2) = insert None (set (map fst working_hist)) - {Some s}"
    unfolding working2_def working1_def
    by (simp only: delete_keys add_escape_keys set_removeAll)
  then have k2: "fst ` set working2 = insert None (fst ` set working_hist) - {Some s}"
    by simp
  have none2: "None \<in> fst ` set working2" using k2 by simp
  have sub2: "fst ` set working2 \<subseteq> insert None (Some ` set rest)"
    using k2 Cons.prems(2) by auto
  show ?case
  proof (cases "length working2 < 2")
    case True
    then show ?thesis
      using build_encoding_short [OF True, of tb "Some 0"]
      by (simp add: Let_def working1_def [symmetric] working2_def [symmetric])
  next
    case False
    then have n: "2 \<le> length working2" by simp
    obtain enc where be: "build_encoding tb (Some 0) working2 = Inr enc"
      and ks: "mset (map fst enc) = mset (map fst working2)" and pf: "prefix_free enc"
      using build_encoding_ok [OF n d2, of tb "Some 0"] by blast
    have "distinct (map fst enc)" using ks d2 by (metis mset_eq_imp_distinct_iff)
    moreover have "None \<in> fst ` set enc" using ks none2 by (metis mset_eq_setD set_map)
    moreover have "2 \<le> length enc" using ks n by (metis length_map size_mset)
    ultimately have ok: "code_ok enc" using pf by (simp add: code_ok_def)
    show ?thesis
    proof (cases "max_length enc \<le> L")
      case True
      then show ?thesis
        using be ok by (simp add: Let_def working1_def [symmetric] working2_def [symmetric])
    next
      case over: False
      have "rest \<noteq> []"
      proof
        assume "rest = []"
        then have "set (map fst working2) \<subseteq> {None}" using sub2 by simp
        then have "card (set (map fst working2)) \<le> 1"
          by (metis card_mono finite.emptyI finite.insertI card.empty card.insert_remove
              One_nat_def card_insert_if empty_iff)
        moreover have "card (set (map fst working2)) = length (map fst working2)"
          using d2 by (rule distinct_card)
        ultimately have "length (map fst working2) \<le> 1" by (simp only:)
        then show False using n by simp
      qed
      then have "limiter_loop tb L hist working2 enc rest = Inl Unsolvable \<or>
         (\<exists>enc'. limiter_loop tb L hist working2 enc rest = Inr enc' \<and>
                max_length enc' \<le> L \<and> code_ok enc')"
        using d2 sub2 by (intro Cons.IH)
      then show ?thesis
        using be over by (simp add: Let_def working1_def [symmetric] working2_def [symmetric])
    qed
  qed
qed

lemma working_hist_of_keys: "map fst (working_hist_of hist) = map Some (map fst hist)"
  by (induction hist) (auto simp: working_hist_of_def)

lemma least_to_most_sort: "least_to_most hist (symbols_least_to_most_probable hist)"
  by (simp add: least_to_most_def symbols_least_to_most_probable_def)

lemma length_limited_result:
  assumes d: "distinct (map fst hist)" and o: "least_to_most hist symbols" and ne: "hist \<noteq> []"
  shows "limiter_loop tb L hist (working_hist_of hist) [] symbols = Inl Unsolvable \<or>
         (\<exists>enc. limiter_loop tb L hist (working_hist_of hist) [] symbols = Inr enc \<and>
                max_length enc \<le> L \<and> code_ok enc)"
proof -
  have s: "set symbols = set (map fst hist)"
    using o unfolding least_to_most_def by (metis mset_eq_setD)
  have "distinct (map fst (working_hist_of hist))"
    using d by (simp only: working_hist_of_keys distinct_map) (simp add: inj_on_def)
  moreover have "fst ` set (working_hist_of hist) \<subseteq> insert None (Some ` set symbols)"
  proof -
    have "fst ` set (working_hist_of hist) = set (map fst (working_hist_of hist))" by simp
    also have "\<dots> = Some ` set symbols" by (simp only: working_hist_of_keys s set_map)
    finally show ?thesis by auto
  qed
  moreover have "symbols \<noteq> []" using s ne by auto
  ultimately show ?thesis by (rule limiter_loop_result)
qed

section \<open>Claims about the length limiter\<close>

text \<open>
  C6. The claim has two halves. The first holds: a table built after a merge has the
  escape symbol. The second does not: the loop merges the least probable symbol before it
  builds its first table, so the escape symbol is present also when the unmerged histogram
  satisfies the budget. For the histogram \<open>{1: 1, 2: 2}\<close> and the budget 1, the code of the
  unmerged histogram has length 1, and the limiter returns a table with the escape symbol.
\<close>

theorem escape_present_without_need:
  "build_encoding first_least 0 [(1::value_t, 1::count_t), (2, 2)] = Inr [(1, [False]), (2, [True])] \<and>
   max_length [(1::value_t, [False]), (2, [True])] \<le> 1 \<and>
   length_limited first_least [(1, 1), (2, 2)] 1 = Inr [(None, [False]), (Some 2, [True])]"
  by code_simp

text \<open>
  C6, as the code has it: for a histogram that is not empty, every table the limiter
  returns has the escape symbol, whatever the budget, the tie-break and the order of
  symbols of equal count.
\<close>

theorem escape_always_present:
  assumes "distinct (map fst hist)" and "least_to_most hist symbols" and "hist \<noteq> []"
    and "limiter_loop tb L hist (working_hist_of hist) [] symbols = Inr enc"
  shows "None \<in> fst ` set enc"
  using length_limited_result [OF assms(1-3), of tb L] assms(4) by (auto simp: code_ok_def)

theorem escape_always_present_witness:
  "distinct (map fst [(1::value_t, 1::count_t), (2, 2)]) \<and>
   least_to_most [(1, 1), (2, 2)] (symbols_least_to_most_probable [(1, 1), (2, 2)]) \<and>
   [(1::value_t, 1::count_t), (2, 2)] \<noteq> [] \<and>
   limiter_loop first_least 1 [(1, 1), (2, 2)] (working_hist_of [(1, 1), (2, 2)]) []
     (symbols_least_to_most_probable [(1, 1), (2, 2)]) = Inr [(None, [False]), (Some 2, [True])] \<and>
   None \<in> fst ` set [(None :: value_t option, [False]), (Some 2, [True])]"
proof -
  have a: "distinct (map fst [(1::value_t, 1::count_t), (2, 2)])" by simp
  have b: "least_to_most [(1, 1), (2, 2)] (symbols_least_to_most_probable [(1, 1), (2, 2)])"
    by (rule least_to_most_sort)
  have c: "[(1::value_t, 1::count_t), (2, 2)] \<noteq> []" by simp
  have d: "limiter_loop first_least 1 [(1, 1), (2, 2)] (working_hist_of [(1, 1), (2, 2)]) []
     (symbols_least_to_most_probable [(1, 1), (2, 2)]) = Inr [(None, [False]), (Some 2, [True])]"
    by code_simp
  show ?thesis using a b c d escape_always_present [OF a b c d] by blast
qed

text \<open>
  C7. For every histogram and every budget \<open>L\<close> (also \<open>L = 0\<close>), every tie-break and every
  order of the symbols by count, the limiter fails with \<open>Unsolvable\<close> or returns a table
  whose longest codeword has at most \<open>L\<close> bits.
\<close>

theorem length_limited_within_budget:
  assumes "distinct (map fst hist)" and "least_to_most hist symbols"
  shows "limiter_loop tb L hist (working_hist_of hist) [] symbols = Inl Unsolvable \<or>
         (\<exists>enc. limiter_loop tb L hist (working_hist_of hist) [] symbols = Inr enc \<and>
                max_length enc \<le> L)"
proof (cases "hist = []")
  case True
  then have "symbols = []" using assms(2) by (simp add: least_to_most_def)
  then show ?thesis by (simp add: max_length_def)
next
  case False
  then show ?thesis using length_limited_result [OF assms False, of tb L] by blast
qed

theorem length_limited_within_budget_witness:
  "distinct (map fst [(5::value_t, 95::count_t), (- 5, 106), (4, 6938), (0, 11488681)]) \<and>
   least_to_most [(5, 95), (- 5, 106), (4, 6938), (0, 11488681)]
     (symbols_least_to_most_probable [(5, 95), (- 5, 106), (4, 6938), (0, 11488681)]) \<and>
   (limiter_loop first_least 2 [(5, 95), (- 5, 106), (4, 6938), (0, 11488681)]
      (working_hist_of [(5, 95), (- 5, 106), (4, 6938), (0, 11488681)]) []
      (symbols_least_to_most_probable [(5, 95), (- 5, 106), (4, 6938), (0, 11488681)])
      = Inl Unsolvable \<or>
    (\<exists>enc. limiter_loop first_least 2 [(5, 95), (- 5, 106), (4, 6938), (0, 11488681)]
        (working_hist_of [(5, 95), (- 5, 106), (4, 6938), (0, 11488681)]) []
        (symbols_least_to_most_probable [(5, 95), (- 5, 106), (4, 6938), (0, 11488681)])
        = Inr enc \<and> max_length enc \<le> 2))"
proof -
  have a: "distinct (map fst [(5::value_t, 95::count_t), (- 5, 106), (4, 6938), (0, 11488681)])"
    by simp
  have b: "least_to_most [(5, 95), (- 5, 106), (4, 6938), (0, 11488681)]
     (symbols_least_to_most_probable [(5, 95), (- 5, 106), (4, 6938), (0, 11488681)])"
    by (rule least_to_most_sort)
  show ?thesis
    using a b length_limited_within_budget [OF a b, of first_least 2] by blast
qed

section \<open>The encoder and the decoder, loop by loop\<close>

lemma sint_of_nat_small: "n < 2 ^ 31 \<Longrightarrow> sint (of_nat n :: 32 word) = int n"
proof -
  assume n: "n < 2 ^ 31"
  have "int n < 2 ^ 31" using n by (metis of_nat_less_iff of_nat_numeral of_nat_power)
  then have "signed_take_bit 31 (int n) = int n"
    by (intro signed_take_bit_int_eq_self) simp_all
  then show ?thesis by (simp add: signed_of_nat)
qed

lemma word_of_nat_inj32:
  "i < 2 ^ 32 \<Longrightarrow> j < 2 ^ 32 \<Longrightarrow> (of_nat i :: 32 word) = of_nat j \<Longrightarrow> i = j"
  by (simp add: word_of_nat_eq_iff take_bit_nat_eq_self)

lemma sint_less_2p31: "sint (w :: 32 word) < 2 ^ 31"
  using sint_lt [of w] by simp

lemma encoding_table_length:
  assumes "encoding_table encoding least greatest = Inr table"
  shows "length table = nat (sint (greatest - least))" and "length table < 2 ^ 31"
proof -
  show l: "length table = nat (sint (greatest - least))"
    using assms by (auto simp: encoding_table_def split: if_splits)
  have "nat (sint (greatest - least)) < 2 ^ 31"
    using sint_less_2p31 [of "greatest - least"]
    by (cases "0 \<le> sint (greatest - least)") (simp_all add: nat_less_iff)
  then show "length table < 2 ^ 31" using l by simp
qed

lemma encode_loop_eq:
  assumes "length table < 2 ^ 31"
  shows "encode_loop table least esc sequence (bits, side) =
     Inr (bits @ concat (map (codeword table least esc) sequence),
          side @ filter (escaped table least esc) sequence)"
proof (induction sequence arbitrary: bits side)
  case Nil
  then show ?case by simp
next
  case (Cons i sequence)
  have sz: "sint (of_nat (length table) :: 32 word) = int (length table)"
    using assms by (rule sint_of_nat_small)
  show ?case
  proof (cases "escaped table least esc i")
    case True
    then show ?thesis
      using Cons.IH [of "bits @ esc" "side @ [i]"]
      by (auto simp: sz Let_def codeword_def escaped_def)
  next
    case False
    then have "0 \<le> sint (i - least)" "sint (i - least) < int (length table)"
      "table ! nat (sint (i - least)) \<noteq> esc"
      by (auto simp: escaped_def)
    then show ?thesis
      using False Cons.IH [of "bits @ table ! nat (sint (i - least))" side]
      by (simp add: sz Let_def codeword_def)
  qed
qed

lemma decode_loop_append:
  "decode_loop e2i least esc side (bits @ tail) st =
     (case decode_loop e2i least esc side bits st of
        Inl e \<Rightarrow> Inl e
      | Inr st' \<Rightarrow> decode_loop e2i least esc side tail st')"
proof (induction bits arbitrary: st)
  case Nil
  then show ?case by simp
next
  case (Cons b bits)
  obtain so_far idx out where st: "st = (so_far, idx, out)" by (cases st)
  show ?case unfolding st by (simp add: Let_def Cons.IH split: option.splits)
qed

lemma decode_loop_unmatched:
  assumes "\<forall>k. 0 < k \<and> k \<le> length tail \<longrightarrow> e2i (so_far @ take k tail) = None"
  shows "decode_loop e2i least esc side tail (so_far, idx, out) = Inr (so_far @ tail, idx, out)"
  using assms
proof (induction tail arbitrary: so_far)
  case Nil
  then show ?case by simp
next
  case (Cons b tail)
  have "e2i (so_far @ take 1 (b # tail)) = None" using Cons.prems by (intro Cons.prems [rule_format]) simp
  then have n: "e2i (so_far @ [b]) = None" by simp
  have "\<forall>k. 0 < k \<and> k \<le> length tail \<longrightarrow> e2i ((so_far @ [b]) @ take k tail) = None"
  proof (intro allI impI)
    fix k assume k: "0 < k \<and> k \<le> length tail"
    have "e2i (so_far @ take (Suc k) (b # tail)) = None"
      using k by (intro Cons.prems [rule_format]) simp
    then show "e2i ((so_far @ [b]) @ take k tail) = None" by simp
  qed
  then have "decode_loop e2i least esc side tail (so_far @ [b], idx, out)
      = Inr ((so_far @ [b]) @ tail, idx, out)"
    by (rule Cons.IH)
  then show ?case using n by (simp add: Let_def)
qed

lemma e2i_fold_dom:
  "dom (fold (\<lambda>i m. m(table ! i \<mapsto> (of_nat i :: 32 word))) is m) = dom m \<union> (\<lambda>i. table ! i) ` set is"
  by (induction "is" arbitrary: m) auto

lemma e2i_fold_val:
  "fold (\<lambda>i m. m(table ! i \<mapsto> (of_nat i :: 32 word))) is m w = Some v \<Longrightarrow>
     m w = Some v \<or> (\<exists>i\<in>set is. table ! i = w \<and> v = of_nat i)"
proof (induction "is" arbitrary: m)
  case Nil
  then show ?case by simp
next
  case (Cons i "is")
  from Cons.IH [of "m(table ! i \<mapsto> of_nat i)"] Cons.prems
  have "(m(table ! i \<mapsto> of_nat i)) w = Some v \<or> (\<exists>j\<in>set is. table ! j = w \<and> v = of_nat j)"
    by simp
  then show ?case by (auto split: if_splits)
qed

lemma e2i_None:
  "encodings_to_indices table esc w = None \<longleftrightarrow> w \<notin> set table \<and> w \<noteq> esc"
proof -
  have "(\<lambda>i. table ! i) ` set [0..<length table] = set table"
    by (simp add: set_conv_nth [of table]) auto
  then have "dom (encodings_to_indices table esc) = insert esc (set table)"
    by (simp only: encodings_to_indices_def e2i_fold_dom dom_fun_upd) simp
  then show ?thesis by (metis domIff insert_iff)
qed

lemma e2i_Some:
  assumes "encodings_to_indices table esc w = Some v" and "w \<noteq> esc"
  shows "\<exists>i<length table. table ! i = w \<and> v = of_nat i"
proof -
  have "fold (\<lambda>i m. m(table ! i \<mapsto> (of_nat i :: 32 word))) [0..<length table] Map.empty w = Some v"
    using assms by (simp add: encodings_to_indices_def)
  from e2i_fold_val [OF this] show ?thesis by auto
qed

lemma decode_codeword_from:
  assumes "\<forall>k. 0 < k \<and> k < length q \<longrightarrow> e2i (p @ take k q) = None"
    and "q \<noteq> []" and "e2i (p @ q) = Some j"
  shows "decode_loop e2i least esc side (q @ rest) (p, idx, out) =
     (if p @ q \<noteq> esc then decode_loop e2i least esc side rest ([], idx, out @ [j + least])
      else if idx < length side
      then decode_loop e2i least esc side rest ([], idx + 1, out @ [side ! idx])
      else Inl Undefined)"
  using assms
proof (induction q arbitrary: p)
  case Nil
  then show ?case by simp
next
  case (Cons b q)
  show ?case
  proof (cases "q = []")
    case True
    then show ?thesis using Cons.prems(3) by (simp add: Let_def)
  next
    case False
    have "e2i (p @ take 1 (b # q)) = None"
      using False by (intro Cons.prems(1) [rule_format]) simp
    then have n: "e2i (p @ [b]) = None" by simp
    have "\<forall>k. 0 < k \<and> k < length q \<longrightarrow> e2i ((p @ [b]) @ take k q) = None"
    proof (intro allI impI)
      fix k assume k: "0 < k \<and> k < length q"
      have "e2i (p @ take (Suc k) (b # q)) = None"
        using k by (intro Cons.prems(1) [rule_format]) simp
      then show "e2i ((p @ [b]) @ take k q) = None" by simp
    qed
    moreover have "e2i ((p @ [b]) @ q) = Some j" using Cons.prems(3) by simp
    ultimately have "decode_loop e2i least esc side (q @ rest) (p @ [b], idx, out) =
     (if (p @ [b]) @ q \<noteq> esc then decode_loop e2i least esc side rest ([], idx, out @ [j + least])
      else if idx < length side
      then decode_loop e2i least esc side rest ([], idx + 1, out @ [side ! idx])
      else Inl Undefined)"
      using False by (intro Cons.IH)
    then show ?thesis using n by (simp add: Let_def)
  qed
qed

lemma codeword_in_table:
  "codeword table least esc s \<in> insert esc (set table)"
  by (cases "escaped table least esc s") (auto simp: codeword_def escaped_def)

lemma decode_one:
  assumes ok: "decodable table esc"
  shows "decode_loop (encodings_to_indices table esc) least esc side
           (codeword table least esc s @ rest) ([], idx, out) =
     (if escaped table least esc s
      then if idx < length side
           then decode_loop (encodings_to_indices table esc) least esc side rest
                  ([], idx + 1, out @ [side ! idx])
           else Inl Undefined
      else decode_loop (encodings_to_indices table esc) least esc side rest ([], idx, out @ [s]))"
proof -
  let ?e2i = "encodings_to_indices table esc"
  let ?w = "codeword table least esc s"
  let ?W = "insert esc (set table)"
  have wW: "?w \<in> ?W" by (rule codeword_in_table)
  have ne: "?w \<noteq> []" using ok wW unfolding decodable_def by blast
  have pf: "\<And>w1. w1 \<in> ?W \<Longrightarrow> prefix w1 ?w \<Longrightarrow> w1 = ?w"
    using ok wW unfolding decodable_def by blast
  have unm: "\<forall>k. 0 < k \<and> k < length ?w \<longrightarrow> ?e2i ([] @ take k ?w) = None"
  proof (intro allI impI)
    fix k assume k: "0 < k \<and> k < length ?w"
    have "take k ?w \<notin> ?W"
    proof
      assume "take k ?w \<in> ?W"
      then have "take k ?w = ?w" using pf take_is_prefix by blast
      then have "length (take k ?w) = length ?w" by simp
      then show False using k by simp
    qed
    then show "?e2i ([] @ take k ?w) = None" by (simp add: e2i_None)
  qed
  obtain v where v: "?e2i ?w = Some v"
    using wW e2i_None [of table esc ?w] by (cases "?e2i ?w") auto
  have step: "decode_loop ?e2i least esc side (?w @ rest) ([], idx, out) =
     (if [] @ ?w \<noteq> esc then decode_loop ?e2i least esc side rest ([], idx, out @ [v + least])
      else if idx < length side
      then decode_loop ?e2i least esc side rest ([], idx + 1, out @ [side ! idx])
      else Inl Undefined)"
    using unm ne v by (intro decode_codeword_from) simp_all
  show ?thesis
  proof (cases "escaped table least esc s")
    case True
    then have "?w = esc" by (simp add: codeword_def)
    then show ?thesis using step True by simp
  next
    case False
    let ?i = "nat (sint (s - least))"
    from False have nonneg: "0 \<le> sint (s - least)" and lt: "?i < length table"
      and w: "?w = table ! ?i" and wne: "table ! ?i \<noteq> esc"
      by (auto simp: escaped_def codeword_def)
    obtain j where j: "j < length table" "table ! j = ?w" "v = of_nat j"
      using e2i_Some [OF v] w wne by auto
    have "j = ?i"
      using ok j(1,2) lt w wne unfolding decodable_def by metis
    then have "v + least = of_nat ?i + least" using j(3) by simp
    also have "\<dots> = s" using nonneg by simp
    finally have "v + least = s" .
    then show ?thesis using step False w wne by simp
  qed
qed

lemma decode_encoded:
  assumes ok: "decodable table esc"
    and side: "drop idx side = filter (escaped table least esc) sequence"
  shows "decode_loop (encodings_to_indices table esc) least esc side
           (concat (map (codeword table least esc) sequence)) ([], idx, out) =
         Inr ([], idx + length (filter (escaped table least esc) sequence), out @ sequence)"
  using side
proof (induction sequence arbitrary: idx out)
  case Nil
  then show ?case by simp
next
  case (Cons s sequence)
  show ?case
  proof (cases "escaped table least esc s")
    case True
    then have d: "drop idx side = s # filter (escaped table least esc) sequence"
      using Cons.prems by simp
    then have lt: "idx < length side" by (cases "idx < length side") auto
    have hd: "side ! idx = s" using d lt by (metis nth_via_drop)
    have "drop (idx + 1) side = filter (escaped table least esc) sequence"
      using d by (metis Suc_eq_plus1 drop_Suc tl_drop list.sel(3))
    from Cons.IH [OF this, of "out @ [s]"] show ?thesis
      using True lt hd by (simp add: decode_one [OF ok])
  next
    case False
    then have "drop idx side = filter (escaped table least esc) sequence"
      using Cons.prems by simp
    from Cons.IH [OF this, of "out @ [s]"] show ?thesis
      using False by (simp add: decode_one [OF ok])
  qed
qed

lemma roundtrip_decodable:
  assumes "decodable table esc"
  shows "\<exists>bits side. encode table least esc sequence = Inr (bits, side) \<and>
           decode table least esc side bits = Inr sequence"
proof -
  have len: "length table < 2 ^ 31" using assms by (simp add: decodable_def)
  have e: "encode table least esc sequence =
     Inr (concat (map (codeword table least esc) sequence), filter (escaped table least esc) sequence)"
    using encode_loop_eq [OF len, of least esc sequence "[]" "[]"] by (simp add: encode_def)
  have "decode_loop (encodings_to_indices table esc) least esc
          (filter (escaped table least esc) sequence)
          (concat (map (codeword table least esc) sequence)) ([], 0, []) =
        Inr ([], 0 + length (filter (escaped table least esc) sequence), [] @ sequence)"
    using assms by (intro decode_encoded) simp_all
  then have "decode table least esc (filter (escaped table least esc) sequence)
          (concat (map (codeword table least esc) sequence)) = Inr sequence"
    by (simp add: decode_def)
  with e show ?thesis by blast
qed

lemma prefix_freeD:
  "prefix_free encoding \<Longrightarrow> (k1, c1) \<in> set encoding \<Longrightarrow> (k2, c2) \<in> set encoding \<Longrightarrow>
     k1 \<noteq> k2 \<Longrightarrow> \<not> prefix c1 c2"
  unfolding prefix_free_def by blast

lemma code_ok_nonempty:
  assumes ok: "code_ok encoding" and c: "map_of encoding k = Some []"
  shows False
proof -
  have d: "distinct (map fst encoding)" and pf: "prefix_free encoding" and n: "2 \<le> length encoding"
    using ok by (simp_all add: code_ok_def)
  have kin: "(k, []) \<in> set encoding" using c by (rule map_of_SomeD)
  have "card (set (map fst encoding)) = length (map fst encoding)" using d by (rule distinct_card)
  then have two: "2 \<le> card (fst ` set encoding)" using n by simp
  have "\<exists>x\<in>set encoding. fst x \<noteq> k"
  proof (rule ccontr)
    assume "\<not> (\<exists>x\<in>set encoding. fst x \<noteq> k)"
    then have "fst ` set encoding \<subseteq> {k}" by auto
    then have "card (fst ` set encoding) \<le> card {k}" by (intro card_mono) simp_all
    then show False using two by simp
  qed
  then obtain k' c' where k': "(k', c') \<in> set encoding" "k' \<noteq> k"
    by (metis prod.collapse)
  have "k \<noteq> k'" using k'(2) by simp
  from prefix_freeD [OF pf kin k'(1) this] show False by simp
qed

lemma code_ok_prefix:
  assumes ok: "code_ok encoding"
    and "map_of encoding k1 = Some c1" "map_of encoding k2 = Some c2" "prefix c1 c2"
  shows "k1 = k2"
proof (rule ccontr)
  assume "k1 \<noteq> k2"
  moreover have "(k1, c1) \<in> set encoding" "(k2, c2) \<in> set encoding"
    using assms(2,3) by (auto dest: map_of_SomeD)
  moreover have "prefix_free encoding" using ok by (simp add: code_ok_def)
  ultimately have "\<not> prefix c1 c2" using prefix_freeD by metis
  then show False using assms(4) by simp
qed

lemma code_ok_perm:
  assumes "code_ok encoding" and "mset encoding' = mset encoding"
  shows "code_ok encoding'"
proof -
  have s: "set encoding' = set encoding" using assms(2) by (rule mset_eq_setD)
  have "mset (map fst encoding') = mset (map fst encoding)" using assms(2) by simp
  then have "distinct (map fst encoding') = distinct (map fst encoding)"
    by (rule mset_eq_imp_distinct_iff)
  moreover have "length encoding' = length encoding" using assms(2) by (rule mset_eq_length)
  ultimately show ?thesis using assms(1) s by (simp add: code_ok_def prefix_free_def)
qed

lemma materialize_decodable:
  assumes ok: "code_ok encoding" and m: "materialize encoding = Inr (table, least, esc)"
  shows "decodable table esc"
proof -
  obtain greatest where t: "encoding_table encoding least greatest = Inr table"
    and esc: "esc = encoding_at encoding None"
    using m by (auto simp: materialize_def split: sum.splits)
  have len: "length table = nat (sint (greatest - least))" and small: "length table < 2 ^ 31"
    using encoding_table_length [OF t] by simp_all
  have "None \<in> fst ` set encoding" using ok by (simp add: code_ok_def)
  then obtain c0 where c0: "map_of encoding None = Some c0"
    by (cases "map_of encoding None") (auto simp: map_of_eq_None_iff)
  have esc0: "esc = c0" using esc c0 by (simp add: encoding_at_def)
  have tab: "table = map (\<lambda>i. if map_of encoding (Some (of_nat i + least)) \<noteq> None
                          then encoding_at encoding (Some (of_nat i + least))
                          else encoding_at encoding None)
                  [0..<nat (sint (greatest - least))]"
    using t by (auto simp: encoding_table_def split: if_splits)
  have entry: "map_of encoding (Some (of_nat i + least)) = Some (table ! i) \<or> table ! i = esc"
    if "i < length table" for i
  proof (cases "map_of encoding (Some (of_nat i + least))")
    case None
    then show ?thesis using that len by (simp add: tab esc)
  next
    case (Some c)
    then show ?thesis using that len by (simp add: tab encoding_at_def)
  qed
  have key: "\<exists>k. map_of encoding k = Some w" if win: "w \<in> insert esc (set table)" for w
  proof (cases "w = esc")
    case True
    then show ?thesis using c0 esc0 by blast
  next
    case False
    then have "w \<in> set table" using win by simp
    then obtain i where i: "i < length table" "table ! i = w"
      by (auto simp: in_set_conv_nth)
    then show ?thesis using entry [of i] False by auto
  qed
  show ?thesis
    unfolding decodable_def
  proof (intro conjI ballI allI impI)
    show "length table < 2 ^ 31" by (rule small)
  next
    fix w assume "w \<in> insert esc (set table)"
    then obtain k where "map_of encoding k = Some w" using key by blast
    then show "w \<noteq> []" using code_ok_nonempty [OF ok] by blast
  next
    fix w1 w2
    assume "w1 \<in> insert esc (set table)" "w2 \<in> insert esc (set table)" "prefix w1 w2"
    then obtain k1 k2 where k: "map_of encoding k1 = Some w1" "map_of encoding k2 = Some w2"
      using key by blast
    then have "k1 = k2" using code_ok_prefix [OF ok] \<open>prefix w1 w2\<close> by blast
    then show "w1 = w2" using k by simp
  next
    fix i j
    assume i: "i < length table" and j: "j < length table"
      and eq: "table ! i = table ! j" and ne: "table ! i \<noteq> esc"
    have ki: "map_of encoding (Some (of_nat i + least)) = Some (table ! i)"
      using entry [OF i] ne by simp
    have kj: "map_of encoding (Some (of_nat j + least)) = Some (table ! j)"
      using entry [OF j] ne eq by simp
    have "Some (of_nat i + least) = Some (of_nat j + least)"
      using code_ok_prefix [OF ok ki kj] eq by simp
    then have "(of_nat i :: 32 word) = of_nat j" by simp
    moreover have "i < 2 ^ 32" "j < 2 ^ 32" using i j small by simp_all
    ultimately show "i = j" by (intro word_of_nat_inj32)
  qed
qed

section \<open>Claims about the dense table, the encoder and the decoder\<close>

text \<open>
  C4. The dense table has \<open>greatest - least\<close> entries, not \<open>greatest - least + 1\<close>: it covers
  the symbols from the least coded value up to, but not including, the greatest. On the
  histogram of \<^verbatim>\<open>main\<close> with \<open>allowed_length = 8\<close> the final table codes the symbols -4 to 3;
  the dense table has the 7 entries of -4 to 2, index 7 of the symbol 3 does not exist, and
  the encoder sends 3 through the escape codeword and the side channel.
\<close>

theorem dense_table_misses_greatest:
  "length_limited first_least main_hist 8 =
     Inr [(Some 0, [False]), (Some 1, [True, False]),
          (Some (- 2), [True, True, False, False]),
          (Some (- 3), [True, True, False, True, False, False]),
          (Some (- 4), [True, True, False, True, False, True, False, False]),
          (None, [True, True, False, True, False, True, False, True]),
          (Some 3, [True, True, False, True, False, True, True]),
          (Some 2, [True, True, False, True, True]),
          (Some (- 1), [True, True, True])] \<and>
   materialize
      [(Some 0, [False]), (Some 1, [True, False]),
       (Some (- 2), [True, True, False, False]),
       (Some (- 3), [True, True, False, True, False, False]),
       (Some (- 4), [True, True, False, True, False, True, False, False]),
       (None, [True, True, False, True, False, True, False, True]),
       (Some 3, [True, True, False, True, False, True, True]),
       (Some 2, [True, True, False, True, True]),
       (Some (- 1), [True, True, True])] =
     Inr ([[True, True, False, True, False, True, False, False],
           [True, True, False, True, False, False], [True, True, False, False],
           [True, True, True], [False], [True, False], [True, True, False, True, True]],
          - 4, [True, True, False, True, False, True, False, True]) \<and>
   nat (sint (3 - (- 4) :: value_t)) = 7 \<and>
   encode
      [[True, True, False, True, False, True, False, False],
       [True, True, False, True, False, False], [True, True, False, False],
       [True, True, True], [False], [True, False], [True, True, False, True, True]]
      (- 4) [True, True, False, True, False, True, False, True] [3] =
     Inr ([True, True, False, True, False, True, False, True], [3])"
  by code_simp

text \<open>
  C10. On a table the materializer built, the encode loop never fails: it returns, for
  every sequence of 32-bit symbols, the codewords of all its symbols in order, the escape
  codeword for the escaped ones, and the escaped symbols in order as the side channel.
\<close>

theorem encode_never_fails:
  assumes "encoding_table encoding least greatest = Inr table"
  shows "encode table least esc sequence =
     Inr (concat (map (codeword table least esc) sequence),
          filter (escaped table least esc) sequence)"
  using encode_loop_eq [OF encoding_table_length(2) [OF assms], of least esc sequence "[]" "[]"]
  by (simp add: encode_def)

theorem encode_never_fails_witness:
  "encoding_table [(None, [False, False]), (Some 2, [False, True]), (Some 3, [True])] 2 3
     = Inr [[False, True]] \<and>
   encode [[False, True]] 2 [False, False] [7, 2, - 9, 3] =
     Inr (concat (map (codeword [[False, True]] 2 [False, False]) [7, 2, - 9, 3]),
          filter (escaped [[False, True]] 2 [False, False]) [7, 2, - 9, 3]) \<and>
   encode [[False, True]] 2 [False, False] [7, 2, - 9, 3] =
     Inr ([False, False, False, True, False, False, False, False], [7, - 9, 3])"
proof -
  have a: "encoding_table [(None, [False, False]), (Some 2, [False, True]), (Some 3, [True])] 2 3
     = Inr [[False, True]]"
    by code_simp
  have b: "encode [[False, True]] 2 [False, False] [7, 2, - 9, 3] =
     Inr ([False, False, False, True, False, False, False, False], [7, - 9, 3])"
    by code_simp
  show ?thesis
    using a b encode_never_fails [OF a, of "[False, False]" "[7, 2, - 9, 3]"] by simp
qed

text \<open>
  C5. The decode loop has no failure for a bitstream that ends inside a codeword: the loop
  ends with the bits, and \<^verbatim>\<open>main\<close> goes on with the symbols decoded so far. With the table
  \<open>[01]\<close> for the symbol 2 and the escape codeword \<open>00\<close>, the bitstream \<open>010\<close> decodes to the
  symbol 2 and leaves the accumulator \<open>0\<close>, which matches no entry; the decoder returns
  \<open>[2]\<close>.
\<close>

theorem decode_unmatched_no_failure:
  "decode_loop (encodings_to_indices [[False, True]] [False, False]) 2 [False, False] []
     [False, True, False] ([], 0, []) = Inr ([False], 0, [2]) \<and>
   encodings_to_indices [[False, True]] [False, False] [False] = None \<and>
   decode [[False, True]] 2 [False, False] [] [False, True, False] = Inr [2]"
  by code_simp

text \<open>
  C5, as the code has it: bits at the end of the bitstream that complete no codeword are
  dropped. If decoding \<open>bits\<close> ends in the state \<open>(so_far, idx, out)\<close> and no extension of
  \<open>so_far\<close> along \<open>tail\<close> is a table entry, then decoding \<open>bits @ tail\<close> returns the same decoded
  symbols \<open>out\<close>, with no failure.
\<close>

theorem decode_drops_unmatched_tail:
  assumes "decode_loop e2i least esc side bits st = Inr (so_far, idx, out)"
    and "\<forall>k. 0 < k \<and> k \<le> length tail \<longrightarrow> e2i (so_far @ take k tail) = None"
  shows "decode_loop e2i least esc side (bits @ tail) st = Inr (so_far @ tail, idx, out)"
  using assms(1) decode_loop_unmatched [OF assms(2)] by (simp add: decode_loop_append)

theorem decode_drops_unmatched_tail_witness:
  "decode_loop (encodings_to_indices [[False, True]] [False, False]) 2 [False, False] []
     [False, True] ([], 0, []) = Inr ([], 0, [2]) \<and>
   encodings_to_indices [[False, True]] [False, False] [False] = None \<and>
   decode_loop (encodings_to_indices [[False, True]] [False, False]) 2 [False, False] []
     ([False, True] @ [False]) ([], 0, []) = Inr ([] @ [False], 0, [2])"
proof -
  have a: "decode_loop (encodings_to_indices [[False, True]] [False, False]) 2 [False, False] []
     [False, True] ([], 0, []) = Inr ([], 0, [2])"
    by code_simp
  have b: "encodings_to_indices [[False, True]] [False, False] [False] = None"
    by code_simp
  have c: "\<forall>k. 0 < k \<and> k \<le> length [False] \<longrightarrow>
      encodings_to_indices [[False, True]] [False, False] ([] @ take k [False]) = None"
  proof (intro allI impI)
    fix k :: nat assume "0 < k \<and> k \<le> length [False]"
    then have "k = 1" by simp
    then show "encodings_to_indices [[False, True]] [False, False] ([] @ take k [False]) = None"
      using b by simp
  qed
  show ?thesis
    using a b decode_drops_unmatched_tail [OF a c] by simp
qed

text \<open>
  C1. For every histogram, budget, tie-break and order of the symbols by count: when the
  limiter returns a code table and the dense table is built from it (the hash table
  iterated in any order), encoding any sequence of 32-bit symbols (of the histogram's
  alphabet or not) and decoding the bitstream with the side channel of that encode gives
  the sequence back.
\<close>

theorem decode_encode_roundtrip:
  assumes "distinct (map fst hist)" and "least_to_most hist symbols"
    and "limiter_loop tb L hist (working_hist_of hist) [] symbols = Inr encoding"
    and "mset iteration_order = mset encoding"
    and "materialize iteration_order = Inr (table, least, esc)"
  shows "\<exists>bits side. encode table least esc sequence = Inr (bits, side) \<and>
           decode table least esc side bits = Inr sequence"
proof -
  have "iteration_order \<noteq> []"
    using assms(5) by (auto simp: materialize_def least_non_null_value_def non_null_value_def)
  then have "encoding \<noteq> []" using assms(4) by auto
  have "hist \<noteq> []"
  proof
    assume "hist = []"
    then have "symbols = []" using assms(2) by (simp add: least_to_most_def)
    then have "encoding = []" using assms(3) by simp
    then show False using \<open>encoding \<noteq> []\<close> by simp
  qed
  then have "code_ok encoding"
    using length_limited_result [OF assms(1,2), of tb L] assms(3) by auto
  then have "code_ok iteration_order" using assms(4) by (rule code_ok_perm)
  then have "decodable table esc" using assms(5) by (rule materialize_decodable)
  then show ?thesis by (rule roundtrip_decodable)
qed

theorem decode_encode_roundtrip_witness:
  "distinct (map fst [(1::value_t, 1::count_t), (2, 2), (3, 4)]) \<and>
   least_to_most [(1, 1), (2, 2), (3, 4)] (symbols_least_to_most_probable [(1, 1), (2, 2), (3, 4)]) \<and>
   limiter_loop first_least 8 [(1, 1), (2, 2), (3, 4)] (working_hist_of [(1, 1), (2, 2), (3, 4)]) []
     (symbols_least_to_most_probable [(1, 1), (2, 2), (3, 4)])
     = Inr [(None, [False, False]), (Some 2, [False, True]), (Some 3, [True])] \<and>
   mset [(Some 3, [True]), (None, [False, False]), (Some (2::value_t), [False, True])]
     = mset [(None, [False, False]), (Some 2, [False, True]), (Some 3, [True])] \<and>
   materialize [(Some 3, [True]), (None, [False, False]), (Some 2, [False, True])]
     = Inr ([[False, True]], 2, [False, False]) \<and>
   (\<exists>bits side. encode [[False, True]] 2 [False, False] [7, 2, - 9, 3, 1] = Inr (bits, side) \<and>
      decode [[False, True]] 2 [False, False] side bits = Inr [7, 2, - 9, 3, 1])"
proof -
  have a: "distinct (map fst [(1::value_t, 1::count_t), (2, 2), (3, 4)])" by simp
  have b: "least_to_most [(1, 1), (2, 2), (3, 4)]
      (symbols_least_to_most_probable [(1, 1), (2, 2), (3, 4)])"
    by (rule least_to_most_sort)
  have c: "limiter_loop first_least 8 [(1, 1), (2, 2), (3, 4)]
      (working_hist_of [(1, 1), (2, 2), (3, 4)]) []
      (symbols_least_to_most_probable [(1, 1), (2, 2), (3, 4)])
      = Inr [(None, [False, False]), (Some 2, [False, True]), (Some 3, [True])]"
    by code_simp
  have p: "mset [(Some 3, [True]), (None, [False, False]), (Some (2::value_t), [False, True])]
      = mset [(None, [False, False]), (Some 2, [False, True]), (Some 3, [True])]"
    by simp
  have d: "materialize [(Some 3, [True]), (None, [False, False]), (Some 2, [False, True])]
      = Inr ([[False, True]], 2, [False, False])"
    by code_simp
  show ?thesis
    using a b c p d decode_encode_roundtrip [OF a b c p d, of "[7, 2, - 9, 3, 1]"] by blast
qed

section \<open>The scan and the scatter\<close>

text \<open>The offsets the exclusive scan gives to a list of codewords, from \<open>a\<close> on.\<close>

fun offsets_from :: "nat \<Rightarrow> encoded_t list \<Rightarrow> nat list" where
  "offsets_from a [] = []"
| "offsets_from a (c # cs) = a # offsets_from (a + length c) cs"

definition code_of :: "(value_t \<times> encoded_t) list \<Rightarrow> value_t \<Rightarrow> encoded_t" where
  "code_of encoding v = the (map_of encoding v)"

lemma size_t_wrap_small: "n < 2 ^ 64 \<Longrightarrow> size_t_wrap n = n"
  by (simp add: size_t_wrap_def)

lemma size_t_wrap_less: "size_t_wrap n < 2 ^ 64"
  by (simp add: size_t_wrap_def)

lemma at_key_present: "map_of encoding v \<noteq> None \<Longrightarrow> at_key encoding v = Inr (code_of encoding v)"
  by (auto simp: at_key_def code_of_def)

lemma at_key_missing: "map_of encoding v = None \<Longrightarrow> at_key encoding v = Inl OutOfRange"
  by (simp add: at_key_def)

lemma serial_encode_eq:
  "serial_encode encoding values encoded =
     (if \<forall>v\<in>set values. map_of encoding v \<noteq> None
      then Inr (encoded @ map of_bool (concat (map (code_of encoding) values)))
      else Inl OutOfRange)"
proof (induction "values" arbitrary: encoded)
  case Nil
  then show ?case by simp
next
  case (Cons v "values")
  show ?case
  proof (cases "map_of encoding v")
    case None
    then show ?thesis by (simp add: at_key_missing)
  next
    case (Some c)
    then show ?thesis by (simp add: at_key_present Cons.IH)
  qed
qed

lemma exclusive_scan_missing:
  "\<exists>v\<in>set values. map_of encoding v = None \<Longrightarrow>
     exclusive_scan encoding values acc offsets = Inl OutOfRange"
proof (induction "values" arbitrary: acc offsets)
  case Nil
  then show ?case by simp
next
  case (Cons v "values")
  show ?case
  proof (cases "map_of encoding v")
    case None
    then show ?thesis by (simp add: at_key_missing)
  next
    case (Some c)
    then have "\<exists>v\<in>set values. map_of encoding v = None" using Cons.prems by auto
    then show ?thesis using Some by (simp add: at_key_present Cons.IH)
  qed
qed

lemma exclusive_scan_present:
  assumes "\<forall>v\<in>set values. map_of encoding v \<noteq> None"
    and "acc + length (concat (map (code_of encoding) values)) < 2 ^ 64"
  shows "exclusive_scan encoding values acc offsets =
     Inr (offsets @ offsets_from acc (map (code_of encoding) values),
          acc + length (concat (map (code_of encoding) values)))"
  using assms
proof (induction "values" arbitrary: acc offsets)
  case Nil
  then show ?case by simp
next
  case (Cons v "values")
  let ?c = "code_of encoding v"
  let ?rest = "concat (map (code_of encoding) values)"
  have pres: "map_of encoding v \<noteq> None" using Cons.prems(1) by simp
  have bound: "acc + length ?c + length ?rest < 2 ^ 64" using Cons.prems(2) by simp
  then have "acc + length ?c < 2 ^ 64" by simp
  then have w: "size_t_wrap (acc + length ?c) = acc + length ?c" by (rule size_t_wrap_small)
  have "exclusive_scan encoding values (acc + length ?c) (offsets @ [acc]) =
     Inr ((offsets @ [acc]) @ offsets_from (acc + length ?c) (map (code_of encoding) values),
          acc + length ?c + length ?rest)"
    using Cons.prems(1) bound by (intro Cons.IH) simp_all
  then show ?case using pres by (simp add: at_key_present w add.assoc)
qed

lemma write_code_eq:
  assumes "index + length c \<le> length par" and "length par < 2 ^ 64"
  shows "write_code par index c =
     Inr (take index par @ map of_bool c @ drop (index + length c) par)"
  using assms
proof (induction c arbitrary: par index)
  case Nil
  then show ?case by simp
next
  case (Cons b c)
  have lt: "index < length par" using Cons.prems(1) by simp
  then have "index < 2 ^ 64" using Cons.prems(2) by simp
  then have w: "size_t_wrap index = index" by (rule size_t_wrap_small)
  have "write_code (par[index := of_bool b]) (index + 1) c =
      Inr (take (index + 1) (par[index := of_bool b]) @ map of_bool c @
           drop (index + 1 + length c) (par[index := of_bool b]))"
    using Cons.prems by (intro Cons.IH) simp_all
  moreover have "take (index + 1) (par[index := of_bool b]) = take index par @ [of_bool b]"
    using lt by (simp add: take_Suc_conv_app_nth)
  moreover have "drop (index + 1 + length c) (par[index := of_bool b])
      = drop (index + length (b # c)) par"
    by simp
  ultimately show ?case using lt by (simp add: w)
qed

lemma scatter_eq:
  assumes "\<forall>v\<in>set values. map_of encoding v \<noteq> None"
    and "a + length (concat (map (code_of encoding) values)) \<le> length par"
    and "length par < 2 ^ 64"
  shows "scatter encoding values (offsets_from a (map (code_of encoding) values)) par =
     Inr (take a par @ map of_bool (concat (map (code_of encoding) values)) @
          drop (a + length (concat (map (code_of encoding) values))) par)"
  using assms
proof (induction "values" arbitrary: a par)
  case Nil
  then show ?case by simp
next
  case (Cons v "values")
  let ?c = "code_of encoding v"
  let ?rest = "concat (map (code_of encoding) values)"
  let ?par' = "take a par @ map of_bool ?c @ drop (a + length ?c) par"
  have pres: "map_of encoding v \<noteq> None" using Cons.prems(1) by simp
  have fit: "a + length ?c \<le> length par" using Cons.prems(2) by simp
  have w: "write_code par a ?c = Inr ?par'" using fit Cons.prems(3) by (rule write_code_eq)
  have len': "length ?par' = length par" using fit by simp
  have "scatter encoding values (offsets_from (a + length ?c) (map (code_of encoding) values)) ?par'
      = Inr (take (a + length ?c) ?par' @ map of_bool ?rest @
             drop (a + length ?c + length ?rest) ?par')"
  proof (intro Cons.IH)
    show "\<forall>v\<in>set values. map_of encoding v \<noteq> None" using Cons.prems(1) by simp
    have "a + length ?c + length ?rest \<le> length par" using Cons.prems(2) by simp
    then show "a + length ?c + length ?rest \<le> length ?par'" by (simp only: len')
    show "length ?par' < 2 ^ 64" using Cons.prems(3) by (simp only: len')
  qed
  moreover have "take (a + length ?c) ?par' = take a par @ map of_bool ?c"
    using fit by simp
  moreover have "drop (a + length ?c + length ?rest) ?par'
      = drop (a + length ?c + length ?rest) par"
    using fit by (simp add: ac_simps)
  ultimately show ?case using pres w by (simp add: at_key_present add.assoc)
qed

lemma fold_max_ge:
  "m \<le> fold (\<lambda>(key, encoded) largest. max largest (length encoded)) xs m"
proof (induction xs arbitrary: m)
  case Nil
  then show ?case by simp
next
  case (Cons x xs)
  obtain k c where x: "x = (k, c)" by (cases x)
  have "m \<le> max m (length c)" by simp
  also have "\<dots> \<le> fold (\<lambda>(key, encoded) largest. max largest (length encoded)) xs (max m (length c))"
    by (rule Cons.IH)
  finally show ?case by (simp add: x)
qed

lemma fold_max_member:
  "(k, c) \<in> set xs \<Longrightarrow>
     length c \<le> fold (\<lambda>(key, encoded) largest. max largest (length encoded)) xs m"
proof (induction xs arbitrary: m)
  case Nil
  then show ?case by simp
next
  case (Cons x xs)
  show ?case
  proof (cases "x = (k, c)")
    case True
    have "length c \<le> max m (length c)" by simp
    also have "\<dots> \<le> fold (\<lambda>(key, encoded) largest. max largest (length encoded)) xs (max m (length c))"
      by (rule fold_max_ge)
    finally show ?thesis using True by simp
  next
    case False
    then have "(k, c) \<in> set xs" using Cons.prems by simp
    from Cons.IH [OF this] show ?thesis by (cases x) simp
  qed
qed

lemma length_le_largest:
  "(k, c) \<in> set encoding \<Longrightarrow> length c \<le> largest_encoding encoding"
  by (simp add: largest_encoding_def fold_max_member)

lemma total_le:
  assumes "\<forall>v\<in>set values. map_of encoding v \<noteq> None"
  shows "length (concat (map (code_of encoding) values)) \<le> length values * largest_encoding encoding"
  using assms
proof (induction "values")
  case Nil
  then show ?case by simp
next
  case (Cons v "values")
  then obtain c where c: "map_of encoding v = Some c" by auto
  then have "length (code_of encoding v) \<le> largest_encoding encoding"
    using length_le_largest [of v c encoding] by (simp add: code_of_def map_of_SomeD)
  then show ?case using Cons by simp
qed

text \<open>
  On a sequence that is not empty and whose worst-case size
  \<^verbatim>\<open>values.size() * largest_encoding\<close> does not wrap, the parallel encoder returns what the
  serial encoder returns: the same bytes, or the same \<^verbatim>\<open>std::out_of_range\<close> when a value has
  no codeword. No write of the scatter falls outside the buffer.
\<close>

lemma parallel_encode_nonempty:
  assumes ne: "values \<noteq> []"
    and fits: "length values * largest_encoding encoding < 2 ^ 64"
  shows "parallel_encode encoding values = serial_encode encoding values []"
proof (cases "\<forall>v\<in>set values. map_of encoding v \<noteq> None")
  case False
  then have "\<exists>v\<in>set values. map_of encoding v = None" by simp
  then have "exclusive_scan encoding values 0 [] = Inl OutOfRange"
    by (rule exclusive_scan_missing)
  moreover have "serial_encode encoding values [] = Inl OutOfRange"
    using False by (simp only: serial_encode_eq if_False)
  ultimately show ?thesis using ne by (simp add: parallel_encode_def)
next
  case True
  let ?bits = "concat (map (code_of encoding) values)"
  let ?par = "replicate (length values * largest_encoding encoding) (0 :: 8 word)"
  have tot: "length ?bits \<le> length values * largest_encoding encoding"
    using True by (rule total_le)
  have small: "0 + length ?bits < 2 ^ 64" using tot fits by simp
  have fit: "0 + length ?bits \<le> length ?par" using tot by simp
  have lpar: "length ?par < 2 ^ 64" using fits by simp
  have buf: "replicate (size_t_wrap (length values * largest_encoding encoding)) (0 :: 8 word) = ?par"
    using fits by (simp only: size_t_wrap_small)
  have sc: "scatter encoding values (offsets_from 0 (map (code_of encoding) values)) ?par =
     Inr (take 0 ?par @ map of_bool ?bits @ drop (0 + length ?bits) ?par)"
    using True fit lpar by (rule scatter_eq)
  have rs: "resize (map of_bool ?bits @ drop (length ?bits) ?par) (length ?bits) = map of_bool ?bits"
    by (simp add: resize_def)
  have scan: "exclusive_scan encoding values 0 [] =
      Inr (offsets_from 0 (map (code_of encoding) values), length ?bits)"
    using exclusive_scan_present [OF True small, of "[]"] by simp
  have ser: "serial_encode encoding values [] = Inr (map of_bool ?bits)"
    using True by (simp only: serial_encode_eq if_True) simp
  have sc': "scatter encoding values (offsets_from 0 (map (code_of encoding) values)) ?par =
     Inr (map of_bool ?bits @ drop (length ?bits) ?par)"
    using sc by simp
  show ?thesis
    using ne
    by (simp only: parallel_encode_def Let_def buf scan sc' ser rs sum.case prod.case if_False)
qed

section \<open>Claim about the two encoders\<close>


end
